theory Spec2Isabelle
  imports Main "HOL-Library.Word"
begin

section \<open>Go maps, errors and the node object\<close>

text \<open>
  The operator (package \<open>operator\<close>, the second file of
  \<open>src/cmd/update-agent/main.go\<close>) edits two \<open>map[string]string\<close> fields of a
  node object: \<open>Labels\<close> and \<open>Annotations\<close>.
  A Go map value may be \<open>nil\<close>: reading a nil map yields the zero value, \<open>delete\<close> on
  a nil map does nothing, and an assignment to an entry of a nil map panics. The model
  keeps that distinction: \<open>None\<close> is the nil map, \<open>Some m\<close> an allocated map.
\<close>

type_synonym gomap = "(string \<rightharpoonup> string) option"

text \<open>
  What ends a phase early: the error the store returns for a node that is not there,
  and the two run-time panics the operator's code can raise, the assignment to an entry
  of a nil map and \<open>make\<close> with a capacity out of range. A panic ends the tick
  as an error does; the nodes updated before it stay updated.
\<close>

datatype error =
    NotFound string
  | NilMapAssignment
  | MakesliceCapOutOfRange

text \<open>\<open>v, ok := m[k]\<close>: \<open>None\<close> when the key is missing or the map is nil.\<close>

definition map_index :: "gomap \<Rightarrow> string \<Rightarrow> string option" where
  "map_index m k = (case m of None \<Rightarrow> None | Some f \<Rightarrow> f k)"

text \<open>\<open>delete(m, k)\<close>: a no-op on a nil map, which stays nil.\<close>

definition map_delete :: "gomap \<Rightarrow> string \<Rightarrow> gomap" where
  "map_delete m k = (case m of None \<Rightarrow> None | Some f \<Rightarrow> Some (f(k := None)))"

text \<open>\<open>m[k] = v\<close>: panics (\<open>assignment to entry in nil map\<close>) on a nil map.\<close>

definition map_assign :: "gomap \<Rightarrow> string \<Rightarrow> string \<Rightarrow> error + gomap" where
  "map_assign m k v = (case m of None \<Rightarrow> Inl NilMapAssignment | Some f \<Rightarrow> Inr (Some (f(k \<mapsto> v))))"

text \<open>\<open>for _, a := range ks { delete(m, a) }\<close>\<close>

definition deleteAll :: "string list \<Rightarrow> gomap \<Rightarrow> gomap" where
  "deleteAll ks m = foldl map_delete m ks"

record Node =
  Name :: string
  Labels :: gomap
  Annotations :: gomap

section \<open>Constants of package \<open>constants\<close>\<close>

text \<open>
  Modelled from the spec: package \<open>constants\<close> is not among the sources. The keys
  carry the names the specification gives them (section 3.1); the proofs use only that
  the keys are pairwise different and that \<open>true\<close> and \<open>false\<close> differ.
\<close>

abbreviation True_str :: string where "True_str \<equiv> ''true''"
abbreviation False_str :: string where "False_str \<equiv> ''false''"
abbreviation AnnotationOkToReboot :: string where "AnnotationOkToReboot \<equiv> ''ok-to-reboot''"
abbreviation AnnotationRebootNeeded :: string where "AnnotationRebootNeeded \<equiv> ''reboot-needed''"
abbreviation AnnotationRebootInProgress :: string where "AnnotationRebootInProgress \<equiv> ''reboot-in-progress''"
abbreviation AnnotationRebootPaused :: string where "AnnotationRebootPaused \<equiv> ''reboot-paused''"
abbreviation LabelBeforeReboot :: string where "LabelBeforeReboot \<equiv> ''before-reboot''"
abbreviation LabelAfterReboot :: string where "LabelAfterReboot \<equiv> ''after-reboot''"

section \<open>Selectors\<close>

text \<open>
  Field selectors of \<open>k8s.io/apimachinery/pkg/fields\<close>: \<open>fields.Set(m).AsSelector()\<close>
  and \<open>ParseSelectorOrDie\<close> build a conjunction of terms \<open>key == value\<close> and
  \<open>key != value\<close>. A term is matched against \<open>Set.Get(key)\<close>, which reads the map and
  so gives the empty string for a missing key: a missing key equals neither \<open>true\<close> nor
  \<open>false\<close> and satisfies \<open>key != true\<close> (section 4.1 of the specification).
\<close>

datatype fieldTerm = hasTerm string string | notHasTerm string string

definition fields_Get :: "gomap \<Rightarrow> string \<Rightarrow> string" where
  "fields_Get ls f = (case map_index ls f of None \<Rightarrow> [] | Some v \<Rightarrow> v)"

fun fieldTerm_Matches :: "fieldTerm \<Rightarrow> gomap \<Rightarrow> bool" where
  "fieldTerm_Matches (hasTerm f v) ls = (fields_Get ls f = v)"
| "fieldTerm_Matches (notHasTerm f v) ls = (fields_Get ls f \<noteq> v)"

definition Selector_Matches :: "fieldTerm list \<Rightarrow> gomap \<Rightarrow> bool" where
  "Selector_Matches sel ls = list_all (\<lambda>t. fieldTerm_Matches t ls) sel"

definition justRebootedSelector :: "fieldTerm list" where
  "justRebootedSelector =
     [hasTerm AnnotationOkToReboot True_str,
      hasTerm AnnotationRebootNeeded False_str,
      hasTerm AnnotationRebootInProgress False_str]"

definition rebootableSelector :: "fieldTerm list" where
  "rebootableSelector =
     [hasTerm AnnotationRebootNeeded True_str,
      notHasTerm AnnotationRebootPaused True_str,
      notHasTerm AnnotationOkToReboot True_str,
      notHasTerm AnnotationRebootInProgress True_str]"

definition stillRebootingSelector :: "fieldTerm list" where
  "stillRebootingSelector =
     [hasTerm AnnotationOkToReboot True_str,
      hasTerm AnnotationRebootNeeded True_str]"

text \<open>
  Label requirements of \<open>k8s.io/apimachinery/pkg/labels\<close>. \<open>In\<close> needs the key to be
  present with one of the values; \<open>NotIn\<close> and \<open>!=\<close> hold when the key is absent or its
  value is none of the values.
\<close>

datatype Operator = In | NotIn | NotEquals

datatype Requirement = Requirement string Operator "string list"

fun Requirement_Matches :: "Requirement \<Rightarrow> gomap \<Rightarrow> bool" where
  "Requirement_Matches (Requirement k In vs) ls =
     (case map_index ls k of None \<Rightarrow> False | Some v \<Rightarrow> v \<in> set vs)"
| "Requirement_Matches (Requirement k NotIn vs) ls =
     (case map_index ls k of None \<Rightarrow> True | Some v \<Rightarrow> v \<notin> set vs)"
| "Requirement_Matches (Requirement k NotEquals vs) ls =
     (case map_index ls k of None \<Rightarrow> True | Some v \<Rightarrow> v \<notin> set vs)"

definition beforeRebootReq :: Requirement where
  "beforeRebootReq = Requirement LabelBeforeReboot In [True_str]"

definition afterRebootReq :: Requirement where
  "afterRebootReq = Requirement LabelAfterReboot In [True_str]"

definition notBeforeRebootReq :: Requirement where
  "notBeforeRebootReq = Requirement LabelBeforeReboot NotIn [True_str]"

text \<open>The label selector string \<open>after-reboot!=true\<close> that \<open>markAfterReboot\<close> lists with.\<close>

definition notAfterRebootSelector :: Requirement where
  "notAfterRebootSelector = Requirement LabelAfterReboot NotEquals [True_str]"

section \<open>Package \<open>k8sutil\<close> and the node store\<close>

text \<open>
  Modelled from the spec: \<open>k8sutil.FilterNodesByAnnotation\<close> and
  \<open>k8sutil.FilterNodesByRequirement\<close> are not among the sources. They keep, in list
  order, the nodes whose annotations satisfy the field selector, respectively whose
  labels satisfy the requirement (sections 2 and 4.4).
\<close>

definition FilterNodesByAnnotation :: "Node list \<Rightarrow> fieldTerm list \<Rightarrow> Node list" where
  "FilterNodesByAnnotation list sel = filter (\<lambda>n. Selector_Matches sel (Annotations n)) list"

definition FilterNodesByRequirement :: "Node list \<Rightarrow> Requirement \<Rightarrow> Node list" where
  "FilterNodesByRequirement nodes r = filter (\<lambda>n. Requirement_Matches r (Labels n)) nodes"

text \<open>
  The node store is the list of node objects in the order its \<open>List\<close> call returns
  them; a node is identified by its name. The store is local and reliable here:
  \<open>List\<close> always succeeds and nothing but the operator writes between two calls, so
  the \<open>listing nodes\<close> error return of each phase and the conflict retry have no
  branch in the model.

  Modelled from the spec: \<open>k8sutil.UpdateNodeRetry\<close> is not among the sources. By
  section 4.3 it applies the mutation closure to a freshly fetched copy of the named
  node and writes the result back; a missing node surfaces as an error. A closure that
  panics writes nothing. The store keeps a map as the closure left it: a map emptied by
  \<open>delete\<close> stays an allocated map.
\<close>

type_synonym store = "Node list"

fun UpdateNodeRetry :: "string \<Rightarrow> (Node \<Rightarrow> error + Node) \<Rightarrow> store \<Rightarrow> error + store" where
  "UpdateNodeRetry nm f [] = Inl (NotFound nm)"
| "UpdateNodeRetry nm f (n # ns) =
     (if Name n = nm
      then (case f n of Inl e \<Rightarrow> Inl e | Inr n' \<Rightarrow> Inr (n' # ns))
      else (case UpdateNodeRetry nm f ns of Inl e \<Rightarrow> Inl e | Inr ns' \<Rightarrow> Inr (n # ns')))"

section \<open>The controller\<close>

text \<open>
  The reboot window is a \<open>*Periodic\<close> of an external library; of it the operator uses
  only \<open>Previous\<close>, which maps an instant to the most recently opened window. It is
  taken as a parameter: \<open>rebootWindow\<close> is \<open>None\<close> for the nil pointer and otherwise the
  \<open>Previous\<close> function. Instants are integers.

  \<open>maxRebootingNodes\<close> is a Go \<open>int\<close>, 64 bits wide on the platforms the operator
  is built for: a word of 64 bits read as a signed number (\<open>sint\<close>), whose arithmetic
  wraps around.
\<close>

record Period =
  Start :: int
  End :: int

record Kontroller =
  beforeRebootAnnotations :: "string list"
  afterRebootAnnotations :: "string list"
  rebootWindow :: "(int \<Rightarrow> Period) option"
  maxRebootingNodes :: "64 word"

subsection \<open>Phase A: cleanupState\<close>

text \<open>The closure \<open>cleanupState\<close> hands to \<open>UpdateNodeRetry\<close>; it cannot fail.\<close>

definition cleanupState_mutate :: "Kontroller \<Rightarrow> Node \<Rightarrow> error + Node" where
  "cleanupState_mutate k node =
     (if map_index (Labels node) LabelBeforeReboot = None then Inr node
      else if Selector_Matches rebootableSelector (Annotations node) then Inr node
      else Inr (node\<lparr>Labels := map_delete (Labels node) LabelBeforeReboot,
                     Annotations := deleteAll (beforeRebootAnnotations k) (Annotations node)\<rparr>))"

text \<open>
  The loop \<open>for _, node := range nodelist.Items\<close>: the items are the snapshot the list
  call returned, the updates go to the store.
\<close>

fun cleanupState_loop :: "Kontroller \<Rightarrow> Node list \<Rightarrow> store \<Rightarrow> error option \<times> store" where
  "cleanupState_loop k [] s = (None, s)"
| "cleanupState_loop k (node # items) s =
     (case UpdateNodeRetry (Name node) (cleanupState_mutate k) s of
        Inl e \<Rightarrow> (Some e, s)
      | Inr s' \<Rightarrow> cleanupState_loop k items s')"

definition cleanupState :: "Kontroller \<Rightarrow> store \<Rightarrow> error option \<times> store" where
  "cleanupState k s = cleanupState_loop k s s"

subsection \<open>Phases B and D: checkReboot\<close>

record checkRebootOptions =
  req :: Requirement
  annotations :: "string list"
  label :: string
  okToReboot :: string

definition hasAllAnnotations :: "Node \<Rightarrow> string list \<Rightarrow> bool" where
  "hasAllAnnotations node as =
     list_all (\<lambda>a. map_index (Annotations node) a = Some True_str) as"

text \<open>
  The closure of \<open>checkReboot\<close>: delete the label, delete the configured annotations,
  assign \<open>ok-to-reboot\<close>. The assignment panics on a nil annotation map.
\<close>

definition checkReboot_mutate :: "checkRebootOptions \<Rightarrow> Node \<Rightarrow> error + Node" where
  "checkReboot_mutate opt node =
     (case map_assign (deleteAll (annotations opt) (Annotations node))
             AnnotationOkToReboot (okToReboot opt) of
        Inl e \<Rightarrow> Inl e
      | Inr a \<Rightarrow> Inr (node\<lparr>Labels := map_delete (Labels node) (label opt), Annotations := a\<rparr>))"

fun checkReboot_loop :: "checkRebootOptions \<Rightarrow> Node list \<Rightarrow> store \<Rightarrow> error option \<times> store" where
  "checkReboot_loop opt [] s = (None, s)"
| "checkReboot_loop opt (node # nodes) s =
     (if \<not> hasAllAnnotations node (annotations opt) then checkReboot_loop opt nodes s
      else (case UpdateNodeRetry (Name node) (checkReboot_mutate opt) s of
              Inl e \<Rightarrow> (Some e, s)
            | Inr s' \<Rightarrow> checkReboot_loop opt nodes s'))"

definition checkReboot :: "checkRebootOptions \<Rightarrow> store \<Rightarrow> error option \<times> store" where
  "checkReboot opt s = checkReboot_loop opt (FilterNodesByRequirement s (req opt)) s"

definition checkBeforeReboot :: "Kontroller \<Rightarrow> store \<Rightarrow> error option \<times> store" where
  "checkBeforeReboot k s =
     checkReboot \<lparr>req = beforeRebootReq, annotations = beforeRebootAnnotations k,
                  label = LabelBeforeReboot, okToReboot = True_str\<rparr> s"

definition checkAfterReboot :: "Kontroller \<Rightarrow> store \<Rightarrow> error option \<times> store" where
  "checkAfterReboot k s =
     checkReboot \<lparr>req = afterRebootReq, annotations = afterRebootAnnotations k,
                  label = LabelAfterReboot, okToReboot = False_str\<rparr> s"

subsection \<open>Marking: mark, markAfterReboot (phase C)\<close>

text \<open>
  The closure of \<open>mark\<close>: delete the given annotations, assign the label. The
  assignment panics on a nil label map, and then nothing of the closure's work is
  written.
\<close>

definition mark_mutate :: "string \<Rightarrow> string list \<Rightarrow> Node \<Rightarrow> error + Node" where
  "mark_mutate lbl as node =
     (case map_assign (Labels node) lbl True_str of
        Inl e \<Rightarrow> Inl e
      | Inr l \<Rightarrow> Inr (node\<lparr>Annotations := deleteAll as (Annotations node), Labels := l\<rparr>))"

definition mark :: "string \<Rightarrow> string \<Rightarrow> string list \<Rightarrow> store \<Rightarrow> error + store" where
  "mark nodeName lbl as s = UpdateNodeRetry nodeName (mark_mutate lbl as) s"

fun mark_loop :: "string \<Rightarrow> string list \<Rightarrow> Node list \<Rightarrow> store \<Rightarrow> error option \<times> store" where
  "mark_loop lbl as [] s = (None, s)"
| "mark_loop lbl as (n # nodes) s =
     (case mark (Name n) lbl as s of
        Inl e \<Rightarrow> (Some e, s)
      | Inr s' \<Rightarrow> mark_loop lbl as nodes s')"

definition markAfterReboot :: "Kontroller \<Rightarrow> store \<Rightarrow> error option \<times> store" where
  "markAfterReboot k s =
     (let nodelist = FilterNodesByRequirement s notAfterRebootSelector;
          justRebootedNodes = FilterNodesByAnnotation nodelist justRebootedSelector
      in mark_loop LabelAfterReboot (afterRebootAnnotations k) justRebootedNodes s)"

subsection \<open>Phase E: markBeforeReboot\<close>

text \<open>
  \<open>insideRebootWindow\<close> reads the clock twice: \<open>t1\<close> is the instant handed to
  \<open>Previous\<close>, \<open>t2\<close> the instant compared with the end of that window.
\<close>

definition insideRebootWindow :: "Kontroller \<Rightarrow> int \<Rightarrow> int \<Rightarrow> bool" where
  "insideRebootWindow k t1 t2 =
     (case rebootWindow k of
        None \<Rightarrow> True
      | Some previous \<Rightarrow> t2 < End (previous t1))"

definition rebootingNodes :: "Node list \<Rightarrow> Node list" where
  "rebootingNodes items =
     FilterNodesByAnnotation items stillRebootingSelector
       @ FilterNodesByRequirement items beforeRebootReq
       @ FilterNodesByRequirement items afterRebootReq"

text \<open>
  \<open>remainingCapacity := k.maxRebootingNodes - len(rebootingNodes)\<close> is a subtraction of
  Go \<open>int\<close>s, which wraps around; the function returns the signed value of the
  difference. \<open>len\<close> is the length of the appended list as a Go \<open>int\<close>.
\<close>

definition remainingRebootingCapacity :: "Kontroller \<Rightarrow> Node list \<Rightarrow> int" where
  "remainingRebootingCapacity k items =
     sint (maxRebootingNodes k - word_of_nat (length (rebootingNodes items)))"

definition nodesRequiringReboot :: "Node list \<Rightarrow> Node list" where
  "nodesRequiringReboot items =
     FilterNodesByRequirement (FilterNodesByAnnotation items rebootableSelector) notBeforeRebootReq"

text \<open>
  \<open>rebootableNodes\<close> allocates \<open>make([]*corev1.Node, 0, remainingCapacity)\<close> before
  its loop. The run-time function behind \<open>make\<close> panics (\<open>makeslice: cap out of
  range\<close>) when the capacity is negative and when the memory asked for, the capacity
  times the size of an element, exceeds \<open>maxAlloc\<close>; the elements are pointers, of
  \<open>PtrSize\<close> bytes, and \<open>maxAlloc\<close> is \<open>2^48\<close> bytes on 64-bit Linux. An allocation
  within that bound is taken to succeed. The loop
  \<open>for i := 0; i < remainingCapacity && i < len(nodesRequiringReboot); i++\<close> then takes
  the first \<open>remainingCapacity\<close> nodes.
\<close>

definition PtrSize :: int where
  "PtrSize = 8"

definition maxAlloc :: int where
  "maxAlloc = 2 ^ 48"

definition rebootableNodes :: "Kontroller \<Rightarrow> Node list \<Rightarrow> error + Node list" where
  "rebootableNodes k items =
     (let remainingCapacity = remainingRebootingCapacity k items
      in if remainingCapacity < 0 \<or> maxAlloc < PtrSize * remainingCapacity
         then Inl MakesliceCapOutOfRange
         else Inr (take (nat remainingCapacity) (nodesRequiringReboot items)))"

text \<open>The part of \<open>markBeforeReboot\<close> after the window check.\<close>

definition markBeforeReboot_admit :: "Kontroller \<Rightarrow> store \<Rightarrow> error option \<times> store" where
  "markBeforeReboot_admit k s =
     (case rebootableNodes k s of
        Inl e \<Rightarrow> (Some e, s)
      | Inr chosenNodes \<Rightarrow> mark_loop LabelBeforeReboot (beforeRebootAnnotations k) chosenNodes s)"

definition markBeforeReboot :: "Kontroller \<Rightarrow> int \<Rightarrow> int \<Rightarrow> store \<Rightarrow> error option \<times> store" where
  "markBeforeReboot k t1 t2 s =
     (if \<not> insideRebootWindow k t1 t2 then (None, s) else markBeforeReboot_admit k s)"

subsection \<open>One tick: process\<close>

text \<open>
  \<open>process\<close> runs the five phases in order and stops at the first one that fails. It
  returns nothing in the source; the model returns the error it stopped with, if any,
  and the store it left.
\<close>

definition process :: "Kontroller \<Rightarrow> int \<Rightarrow> int \<Rightarrow> store \<Rightarrow> error option \<times> store" where
  "process k t1 t2 s0 =
     (case cleanupState k s0 of
        (Some e, s) \<Rightarrow> (Some e, s)
      | (None, s1) \<Rightarrow>
     (case checkAfterReboot k s1 of
        (Some e, s) \<Rightarrow> (Some e, s)
      | (None, s2) \<Rightarrow>
     (case markAfterReboot k s2 of
        (Some e, s) \<Rightarrow> (Some e, s)
      | (None, s3) \<Rightarrow>
     (case checkBeforeReboot k s3 of
        (Some e, s) \<Rightarrow> (Some e, s)
      | (None, s4) \<Rightarrow> markBeforeReboot k t1 t2 s4))))"

section \<open>Notions the statements use\<close>

text \<open>
  A node counts against the budget when it carries label \<open>before-reboot=true\<close> or
  \<open>after-reboot=true\<close>, or satisfies the still-rebooting selector.
\<close>

definition inRebootingSet :: "Node \<Rightarrow> bool" where
  "inRebootingSet n =
     (Requirement_Matches beforeRebootReq (Labels n)
      \<or> Requirement_Matches afterRebootReq (Labels n)
      \<or> Selector_Matches stillRebootingSelector (Annotations n))"

definition rebootingCount :: "store \<Rightarrow> nat" where
  "rebootingCount s = length (filter inRebootingSet s)"

text \<open>A node keeps its name and the value (or absence) of one annotation key.\<close>

definition keeps_key :: "string \<Rightarrow> Node \<Rightarrow> Node \<Rightarrow> bool" where
  "keeps_key key n n' =
     (Name n' = Name n \<and> map_index (Annotations n') key = map_index (Annotations n) key)"

text \<open>
  What phase A leaves of a node it cleans up: the \<open>before-reboot\<close> label is gone, the
  other labels are as they were, the configured before-reboot annotations are gone and
  the other annotations are as they were.
\<close>

definition cleaned_up :: "Kontroller \<Rightarrow> Node \<Rightarrow> Node \<Rightarrow> bool" where
  "cleaned_up k n n' =
     (Name n' = Name n
      \<and> map_index (Labels n') LabelBeforeReboot = None
      \<and> (\<forall>l. l \<noteq> LabelBeforeReboot \<longrightarrow> map_index (Labels n') l = map_index (Labels n) l)
      \<and> (\<forall>a. map_index (Annotations n') a
              = (if a \<in> set (beforeRebootAnnotations k) then None else map_index (Annotations n) a)))"

text \<open>
  What \<open>checkReboot\<close> leaves of a node it updates: the label \<open>lbl\<close> is gone, the other
  labels are as they were, \<open>ok-to-reboot\<close> has the value \<open>v\<close>, the configured annotations
  \<open>as\<close> are gone and the other annotations are as they were.
\<close>

definition checked_off :: "string \<Rightarrow> string list \<Rightarrow> string \<Rightarrow> Node \<Rightarrow> Node \<Rightarrow> bool" where
  "checked_off lbl as v n n' =
     (Name n' = Name n
      \<and> map_index (Labels n') lbl = None
      \<and> (\<forall>l. l \<noteq> lbl \<longrightarrow> map_index (Labels n') l = map_index (Labels n) l)
      \<and> (\<forall>a. map_index (Annotations n') a
              = (if a = AnnotationOkToReboot then Some v
                 else if a \<in> set as then None else map_index (Annotations n) a)))"

text \<open>The states of section 3.2 the statements name, as the phases test them.\<close>

definition idle :: "Node \<Rightarrow> bool" where
  "idle n = (fields_Get (Annotations n) AnnotationRebootNeeded = False_str)"

definition justRebooted :: "Node \<Rightarrow> bool" where
  "justRebooted n =
     (Requirement_Matches notAfterRebootSelector (Labels n)
      \<and> Selector_Matches justRebootedSelector (Annotations n))"

definition finishedRebooting :: "Kontroller \<Rightarrow> Node \<Rightarrow> bool" where
  "finishedRebooting k n =
     (Requirement_Matches afterRebootReq (Labels n)
      \<and> hasAllAnnotations n (afterRebootAnnotations k))"

definition rebootable :: "Node \<Rightarrow> bool" where
  "rebootable n =
     (Selector_Matches rebootableSelector (Annotations n)
      \<and> Requirement_Matches notBeforeRebootReq (Labels n))"

definition readyToReboot :: "Kontroller \<Rightarrow> Node \<Rightarrow> bool" where
  "readyToReboot k n =
     (Requirement_Matches beforeRebootReq (Labels n)
      \<and> hasAllAnnotations n (beforeRebootAnnotations k))"

text \<open>A node that carries the \<open>before-reboot\<close> label still wants its reboot.\<close>

definition scheduledWantsReboot :: "Node \<Rightarrow> bool" where
  "scheduledWantsReboot n =
     (map_index (Labels n) LabelBeforeReboot \<noteq> None
        \<longrightarrow> Selector_Matches rebootableSelector (Annotations n))"

text \<open>The options \<open>checkAfterReboot\<close> and \<open>checkBeforeReboot\<close> call \<open>checkReboot\<close> with.\<close>

definition afterOpts :: "Kontroller \<Rightarrow> checkRebootOptions" where
  "afterOpts k = \<lparr>req = afterRebootReq, annotations = afterRebootAnnotations k,
                   label = LabelAfterReboot, okToReboot = False_str\<rparr>"

definition beforeOpts :: "Kontroller \<Rightarrow> checkRebootOptions" where
  "beforeOpts k = \<lparr>req = beforeRebootReq, annotations = beforeRebootAnnotations k,
                    label = LabelBeforeReboot, okToReboot = True_str\<rparr>"

text \<open>The node \<open>N\<close> stays what it is, and every node keeps its name.\<close>

definition leaves :: "Node \<Rightarrow> Node \<Rightarrow> Node \<Rightarrow> bool" where
  "leaves N n n' = (Name n' = Name n \<and> (n = N \<longrightarrow> n' = N))"

text \<open>
  The three loops of the phases have one shape: update the named nodes one after the
  other with a closure and stop at the first failure. \<open>update_all\<close> is that shape, used
  in the proofs only; \<open>applied f\<close> is what a closure leaves of a node.
\<close>

fun update_all :: "(Node \<Rightarrow> error + Node) \<Rightarrow> string list \<Rightarrow> store \<Rightarrow> error option \<times> store" where
  "update_all f [] s = (None, s)"
| "update_all f (nm # nms) s =
     (case UpdateNodeRetry nm f s of
        Inl e \<Rightarrow> (Some e, s)
      | Inr s' \<Rightarrow> update_all f nms s')"

definition applied :: "(Node \<Rightarrow> error + Node) \<Rightarrow> Node \<Rightarrow> Node" where
  "applied f n = (case f n of Inl e \<Rightarrow> n | Inr n' \<Rightarrow> n')"

definition loop_char :: "(Node \<Rightarrow> error + Node) \<Rightarrow> string list \<Rightarrow> store \<Rightarrow> nat \<Rightarrow> bool" where
  "loop_char f nms s j =
     (j \<le> length nms
      \<and> snd (update_all f nms s) = map (\<lambda>n. if Name n \<in> set (take j nms) then applied f n else n) s
      \<and> (\<forall>n \<in> set s. Name n \<in> set (take j nms) \<longrightarrow> f n = Inr (applied f n))
      \<and> (fst (update_all f nms s) = None \<longrightarrow> j = length nms)
      \<and> (\<forall>e. fst (update_all f nms s) = Some e
             \<longrightarrow> j < length nms \<and> (\<exists>n \<in> set s. Name n = nms ! j \<and> f n = Inl e)))"

text \<open>
  The same for a loop over the first \<open>r\<close> nodes a predicate selects: \<open>j\<close> of them were
  updated, and if the loop failed it failed on the next one.
\<close>

definition prefix_char ::
  "(Node \<Rightarrow> error + Node) \<Rightarrow> nat \<Rightarrow> (Node \<Rightarrow> bool) \<Rightarrow> store \<Rightarrow> nat \<Rightarrow> bool" where
  "prefix_char f r P t j =
     (j \<le> length (take r (filter P t))
      \<and> snd (update_all f (map Name (take r (filter P t))) t)
          = map (\<lambda>n. if Name n \<in> Name ` set (take j (filter P t)) then applied f n else n) t
      \<and> (\<forall>n \<in> set t. Name n \<in> Name ` set (take j (filter P t))
             \<longrightarrow> P n \<and> f n = Inr (applied f n))
      \<and> (fst (update_all f (map Name (take r (filter P t))) t) = None
             \<longrightarrow> j = length (take r (filter P t)))
      \<and> (\<forall>e. fst (update_all f (map Name (take r (filter P t))) t) = Some e
             \<longrightarrow> j < length (take r (filter P t)) \<and> f (take r (filter P t) ! j) = Inl e))"

section \<open>Nodes and configuration of the test file\<close>

text \<open>
  The fixtures of \<open>operator_internal_test.go\<close>: the node of each lifecycle state and
  the controller \<open>kontrollerWithObjects\<close> builds (budget 1, no annotations, no window).
\<close>

definition testBeforeRebootAnnotation :: string where
  "testBeforeRebootAnnotation = ''test-before-annotation''"

definition testAfterRebootAnnotation :: string where
  "testAfterRebootAnnotation = ''test-after-annotation''"

definition testAnotherAfterRebootAnnotation :: string where
  "testAnotherAfterRebootAnnotation = ''test-another-after-annotation''"

definition testKontroller :: Kontroller where
  "testKontroller = \<lparr>beforeRebootAnnotations = [], afterRebootAnnotations = [],
                      rebootWindow = None, maxRebootingNodes = 1\<rparr>"

text \<open>The controller with the hook annotations of the test file configured.\<close>

definition hookedKontroller :: Kontroller where
  "hookedKontroller =
     \<lparr>beforeRebootAnnotations = [testBeforeRebootAnnotation],
      afterRebootAnnotations = [testAfterRebootAnnotation, testAnotherAfterRebootAnnotation],
      rebootWindow = None, maxRebootingNodes = 1\<rparr>"

definition idleNode :: Node where
  "idleNode =
     \<lparr>Name = ''idle'',
      Labels = Some Map.empty,
      Annotations = Some [AnnotationOkToReboot \<mapsto> False_str,
                          AnnotationRebootNeeded \<mapsto> False_str,
                          AnnotationRebootInProgress \<mapsto> False_str]\<rparr>"

definition rebootableNode :: Node where
  "rebootableNode =
     \<lparr>Name = ''rebootable'',
      Labels = Some [''reboot-needed'' \<mapsto> True_str],
      Annotations = Some [AnnotationRebootNeeded \<mapsto> True_str,
                          AnnotationOkToReboot \<mapsto> False_str,
                          AnnotationRebootInProgress \<mapsto> False_str,
                          testBeforeRebootAnnotation \<mapsto> False_str]\<rparr>"

definition scheduledForRebootNode :: Node where
  "scheduledForRebootNode =
     \<lparr>Name = ''scheduled-for-reboot'',
      Labels = Some [LabelBeforeReboot \<mapsto> True_str],
      Annotations = Some [AnnotationRebootNeeded \<mapsto> True_str,
                          AnnotationOkToReboot \<mapsto> False_str,
                          AnnotationRebootInProgress \<mapsto> False_str]\<rparr>"

definition rebootCancelledNode :: Node where
  "rebootCancelledNode =
     \<lparr>Name = ''before-reboot'',
      Labels = Some [LabelBeforeReboot \<mapsto> True_str],
      Annotations = Some [testBeforeRebootAnnotation \<mapsto> True_str]\<rparr>"

definition readyToRebootNode :: Node where
  "readyToRebootNode =
     \<lparr>Name = ''ready-to-reboot'',
      Labels = Some [LabelBeforeReboot \<mapsto> True_str],
      Annotations = Some [AnnotationRebootNeeded \<mapsto> True_str,
                          testBeforeRebootAnnotation \<mapsto> True_str,
                          AnnotationOkToReboot \<mapsto> False_str,
                          AnnotationRebootInProgress \<mapsto> False_str]\<rparr>"

definition rebootNotConfirmedNode :: Node where
  "rebootNotConfirmedNode =
     \<lparr>Name = ''reboot-not-confirmed'',
      Labels = Some Map.empty,
      Annotations = Some [AnnotationOkToReboot \<mapsto> True_str,
                          AnnotationRebootNeeded \<mapsto> True_str,
                          AnnotationRebootInProgress \<mapsto> False_str]\<rparr>"

definition justRebootedNode :: Node where
  "justRebootedNode =
     \<lparr>Name = ''just-rebooted'',
      Labels = Some Map.empty,
      Annotations = Some [AnnotationOkToReboot \<mapsto> True_str,
                          AnnotationRebootNeeded \<mapsto> False_str,
                          AnnotationRebootInProgress \<mapsto> False_str,
                          testAfterRebootAnnotation \<mapsto> False_str,
                          testAnotherAfterRebootAnnotation \<mapsto> False_str]\<rparr>"

definition finishedRebootingNode :: Node where
  "finishedRebootingNode =
     \<lparr>Name = ''finished-rebooting'',
      Labels = Some [LabelAfterReboot \<mapsto> True_str],
      Annotations = Some [AnnotationOkToReboot \<mapsto> True_str,
                          testAfterRebootAnnotation \<mapsto> True_str,
                          testAnotherAfterRebootAnnotation \<mapsto> True_str,
                          AnnotationRebootInProgress \<mapsto> False_str]\<rparr>"

text \<open>
  \<open>toBeRebootedNode\<close> of \<open>Test_Operator_cleans_up_nodes_which_cannot_be_rebooted\<close>: a
  node object with no label map.
\<close>

definition toBeRebootedNode :: Node where
  "toBeRebootedNode =
     \<lparr>Name = ''bar'',
      Labels = None,
      Annotations = Some [testBeforeRebootAnnotation \<mapsto> []]\<rparr>"

text \<open>Further inputs of the examples below.\<close>

definition unannotatedScheduledNode :: Node where
  "unannotatedScheduledNode =
     \<lparr>Name = ''unannotated'',
      Labels = Some [LabelBeforeReboot \<mapsto> True_str],
      Annotations = None\<rparr>"

definition secondScheduledNode :: Node where
  "secondScheduledNode = scheduledForRebootNode\<lparr>Name := ''second-scheduled''\<rparr>"

definition overlapNode :: Node where
  "overlapNode =
     \<lparr>Name = ''overlap'',
      Labels = Some [LabelAfterReboot \<mapsto> True_str],
      Annotations = Some [AnnotationOkToReboot \<mapsto> True_str,
                          AnnotationRebootNeeded \<mapsto> True_str]\<rparr>"

text \<open>A labelled node that is approved for its reboot and so no longer rebootable.\<close>

definition approvedLabelledNode :: Node where
  "approvedLabelledNode =
     \<lparr>Name = ''approved-labelled'',
      Labels = Some [LabelBeforeReboot \<mapsto> True_str],
      Annotations = Some [AnnotationRebootNeeded \<mapsto> True_str,
                          AnnotationOkToReboot \<mapsto> True_str]\<rparr>"

text \<open>A weekly window of length zero: it closes the instant it opens.\<close>

definition closedWindow :: "int \<Rightarrow> Period" where
  "closedWindow t = \<lparr>Start = t - t mod 604800, End = t - t mod 604800\<rparr>"

section \<open>Basic facts\<close>

lemmas sel_defs = FilterNodesByAnnotation_def FilterNodesByRequirement_def Selector_Matches_def
  fields_Get_def map_index_def beforeRebootReq_def afterRebootReq_def notBeforeRebootReq_def
  notAfterRebootSelector_def stillRebootingSelector_def rebootableSelector_def justRebootedSelector_def

lemmas node_defs = idleNode_def rebootableNode_def scheduledForRebootNode_def rebootCancelledNode_def
  readyToRebootNode_def rebootNotConfirmedNode_def justRebootedNode_def finishedRebootingNode_def
  toBeRebootedNode_def unannotatedScheduledNode_def secondScheduledNode_def overlapNode_def
  approvedLabelledNode_def
  testBeforeRebootAnnotation_def testAfterRebootAnnotation_def testAnotherAfterRebootAnnotation_def
  testKontroller_def

lemmas phase_defs = process_def cleanupState_def cleanupState_mutate_def
  checkAfterReboot_def checkBeforeReboot_def checkReboot_def checkReboot_mutate_def
  markAfterReboot_def markBeforeReboot_def markBeforeReboot_admit_def mark_def mark_mutate_def
  rebootableNodes_def remainingRebootingCapacity_def rebootingNodes_def nodesRequiringReboot_def
  maxAlloc_def PtrSize_def
  insideRebootWindow_def hasAllAnnotations_def map_assign_def map_delete_def deleteAll_def

lemma deleteAll_None [simp]: "deleteAll ks None = None"
  by (induction ks) (simp_all add: deleteAll_def map_delete_def)

lemma deleteAll_Some: "deleteAll ks (Some m) = Some (\<lambda>x. if x \<in> set ks then None else m x)"
proof (induction ks arbitrary: m)
  case Nil
  then show ?case by (simp add: deleteAll_def)
next
  case (Cons a ks)
  have "deleteAll (a # ks) (Some m) = deleteAll ks (Some (m(a := None)))"
    by (simp add: deleteAll_def map_delete_def)
  also have "\<dots> = Some (\<lambda>x. if x \<in> set ks then None else (m(a := None)) x)"
    by (rule Cons.IH)
  also have "\<dots> = Some (\<lambda>x. if x \<in> set (a # ks) then None else m x)"
    by (auto simp: fun_eq_iff)
  finally show ?case .
qed

lemma deleteAll_eq_None [simp]: "deleteAll ks m = None \<longleftrightarrow> m = None"
  by (cases m) (simp_all add: deleteAll_Some)

lemma map_index_deleteAll:
  "map_index (deleteAll ks m) a = (if a \<in> set ks then None else map_index m a)"
  by (cases m) (simp_all add: deleteAll_Some map_index_def)

lemma map_index_map_delete:
  "map_index (map_delete m k) a = (if a = k then None else map_index m a)"
  by (cases m) (simp_all add: map_delete_def map_index_def)

lemma map_assign_Inr:
  "map_assign m k v = Inr m' \<Longrightarrow> map_index m' a = (if a = k then Some v else map_index m a)"
  by (cases m) (auto simp: map_assign_def map_index_def)

text \<open>Every closure keeps the node's name.\<close>

lemma cleanupState_mutate_Name: "cleanupState_mutate k n = Inr n' \<Longrightarrow> Name n' = Name n"
  by (auto simp: cleanupState_mutate_def split: if_splits)

lemma checkReboot_mutate_Name: "checkReboot_mutate opt n = Inr n' \<Longrightarrow> Name n' = Name n"
  by (auto simp: checkReboot_mutate_def split: sum.splits)

lemma mark_mutate_Name: "mark_mutate lbl as n = Inr n' \<Longrightarrow> Name n' = Name n"
  by (auto simp: mark_mutate_def split: sum.splits)

section \<open>The loops as \<open>update_all\<close>\<close>

lemma cleanupState_loop_update_all:
  "cleanupState_loop k xs s = update_all (cleanupState_mutate k) (map Name xs) s"
  by (induction xs arbitrary: s) (auto split: sum.splits)

lemma checkReboot_loop_update_all:
  "checkReboot_loop opt xs s
     = update_all (checkReboot_mutate opt)
         (map Name (filter (\<lambda>n. hasAllAnnotations n (annotations opt)) xs)) s"
  by (induction xs arbitrary: s) (auto split: sum.splits)

lemma mark_loop_update_all:
  "mark_loop lbl as xs s = update_all (mark_mutate lbl as) (map Name xs) s"
  by (induction xs arbitrary: s) (auto simp: mark_def split: sum.splits)

text \<open>A relation between a node and its update carries over to the store.\<close>

lemma UpdateNodeRetry_rel:
  assumes "UpdateNodeRetry nm f s = Inr s'"
    and "\<And>n n'. Name n = nm \<Longrightarrow> f n = Inr n' \<Longrightarrow> R n n'"
    and "\<And>n. R n n"
  shows "list_all2 R s s'"
  using assms(1)
proof (induction s arbitrary: s')
  case Nil
  then show ?case by simp
next
  case (Cons h t)
  show ?case
  proof (cases "Name h = nm")
    case True
    then obtain h' where "f h = Inr h'" "s' = h' # t"
      using Cons.prems by (auto split: sum.splits)
    then show ?thesis using assms(2)[OF True] assms(3) by (simp add: list_all2_refl)
  next
    case False
    then obtain t' where "UpdateNodeRetry nm f t = Inr t'" "s' = h # t'"
      using Cons.prems by (auto split: sum.splits)
    then show ?thesis using Cons.IH assms(3) by simp
  qed
qed

lemma list_all2_chain:
  assumes "list_all2 R xs ys" "list_all2 R ys zs" "\<And>a b c. R a b \<Longrightarrow> R b c \<Longrightarrow> R a c"
  shows "list_all2 R xs zs"
  using assms(1) assms(2) by (rule list_all2_trans[rotated]) (rule assms(3))

lemma update_all_rel:
  assumes "\<And>n n'. Name n \<in> set nms \<Longrightarrow> f n = Inr n' \<Longrightarrow> R n n'"
    and "\<And>n. R n n"
    and "\<And>a b c. R a b \<Longrightarrow> R b c \<Longrightarrow> R a c"
  shows "list_all2 R s (snd (update_all f nms s))"
  using assms(1)
proof (induction nms arbitrary: s)
  case Nil
  then show ?case using assms(2) by (simp add: list_all2_refl)
next
  case (Cons nm nms)
  show ?case
  proof (cases "UpdateNodeRetry nm f s")
    case (Inl e)
    then show ?thesis using assms(2) by (simp add: list_all2_refl)
  next
    case (Inr s1)
    have "list_all2 R s s1"
      using Inr Cons.prems assms(2) by (intro UpdateNodeRetry_rel[of nm f s s1 R]) auto
    moreover have "list_all2 R s1 (snd (update_all f nms s1))"
      using Cons.prems by (intro Cons.IH) auto
    ultimately have "list_all2 R s (snd (update_all f nms s1))"
      by (rule list_all2_chain) (rule assms(3))
    then show ?thesis using Inr by simp
  qed
qed

text \<open>A relation every phase respects holds between the stores before and after a tick.\<close>

lemma process_rel:
  assumes inv: "Inv s"
    and pres: "\<And>t t'. Inv t \<Longrightarrow> list_all2 R t t' \<Longrightarrow> Inv t'"
    and tr: "\<And>a b c. R a b \<Longrightarrow> R b c \<Longrightarrow> R a c"
    and A: "\<And>t. Inv t \<Longrightarrow> list_all2 R t (snd (cleanupState k t))"
    and B: "\<And>t. Inv t \<Longrightarrow> list_all2 R t (snd (checkAfterReboot k t))"
    and C: "\<And>t. Inv t \<Longrightarrow> list_all2 R t (snd (markAfterReboot k t))"
    and D: "\<And>t. Inv t \<Longrightarrow> list_all2 R t (snd (checkBeforeReboot k t))"
    and E: "\<And>t. Inv t \<Longrightarrow> list_all2 R t (snd (markBeforeReboot k t1 t2 t))"
  shows "list_all2 R s (snd (process k t1 t2 s))"
proof -
  have tr': "list_all2 R a c" if "list_all2 R a b" "list_all2 R b c" for a b c
    using that by (rule list_all2_chain) (rule tr)
  obtain e1 s1 where p1: "cleanupState k s = (e1, s1)" by (cases "cleanupState k s")
  obtain e2 s2 where p2: "checkAfterReboot k s1 = (e2, s2)" by (cases "checkAfterReboot k s1")
  obtain e3 s3 where p3: "markAfterReboot k s2 = (e3, s3)" by (cases "markAfterReboot k s2")
  obtain e4 s4 where p4: "checkBeforeReboot k s3 = (e4, s4)" by (cases "checkBeforeReboot k s3")
  obtain e5 s5 where p5: "markBeforeReboot k t1 t2 s4 = (e5, s5)" by (cases "markBeforeReboot k t1 t2 s4")
  have r1: "list_all2 R s s1" using A[OF inv] p1 by simp
  have i1: "Inv s1" using pres[OF inv r1] .
  have r2: "list_all2 R s s2" using tr'[OF r1] B[OF i1] p2 by simp
  have i2: "Inv s2" using pres[OF inv r2] .
  have r3: "list_all2 R s s3" using tr'[OF r2] C[OF i2] p3 by simp
  have i3: "Inv s3" using pres[OF inv r3] .
  have r4: "list_all2 R s s4" using tr'[OF r3] D[OF i3] p4 by simp
  have i4: "Inv s4" using pres[OF inv r4] .
  have r5: "list_all2 R s s5" using tr'[OF r4] E[OF i4] p5 by simp
  show ?thesis
    using p1 p2 p3 p4 p5 r1 r2 r3 r4 r5
    by (cases e1; cases e2; cases e3; cases e4) (simp_all add: process_def)
qed

text \<open>The Go subtraction of a length from an \<open>int\<close>, where it does not wrap.\<close>

lemma sint_sub_of_nat:
  fixes w :: "64 word"
  assumes "int j \<le> sint w + 2 ^ 63"
  shows "sint (w - word_of_nat j) = sint w - int j"
proof -
  have "w - word_of_nat j = word_of_int (sint w - int j)"
    by simp
  then have "sint (w - word_of_nat j) = signed_take_bit 63 (sint w - int j)"
    by (simp only: sint_sbintrunc') simp
  moreover have "sint w < 2 ^ 63"
    using sint_lt[of w] by simp
  ultimately show ?thesis
    using assms by (simp add: signed_take_bit_int_eq_self)
qed

section \<open>C1: the budget after phase E\<close>

lemma UpdateNodeRetry_count:
  "UpdateNodeRetry nm f s = Inr s' \<Longrightarrow> length (filter P s') \<le> Suc (length (filter P s))"
  by (induction s arbitrary: s') (auto split: if_splits sum.splits)

lemma mark_loop_count:
  "length (filter P (snd (mark_loop lbl as xs s))) \<le> length (filter P s) + length xs"
proof (induction xs arbitrary: s)
  case Nil
  then show ?case by simp
next
  case (Cons x xs)
  show ?case
  proof (cases "mark (Name x) lbl as s")
    case (Inl e)
    then show ?thesis by simp
  next
    case (Inr s')
    have "length (filter P s') \<le> Suc (length (filter P s))"
      using Inr UpdateNodeRetry_count by (simp add: mark_def)
    moreover have "length (filter P (snd (mark_loop lbl as xs s'))) \<le> length (filter P s') + length xs"
      by (rule Cons.IH)
    ultimately show ?thesis using Inr by simp
  qed
qed

lemma rebootingCount_le_rebootingNodes:
  "rebootingCount s \<le> length (rebootingNodes s)"
  unfolding rebootingCount_def rebootingNodes_def FilterNodesByAnnotation_def
    FilterNodesByRequirement_def
  by (induction s) (auto simp: inRebootingSet_def)

text \<open>
  Claim C1. If the nodes that carry label \<open>before-reboot=true\<close> or \<open>after-reboot=true\<close>
  or are still rebooting number at most \<open>maxRebootingNodes\<close> before phase E
  (\<open>markBeforeReboot\<close>), they number at most \<open>maxRebootingNodes\<close> in the store the phase
  leaves, whether it returns, fails or finds the window closed. The list
  \<open>rebootingNodes\<close> is a Go slice, whose length is an \<open>int\<close>: it has fewer than
  \<open>2^63\<close> elements.
\<close>

theorem markBeforeReboot_keeps_budget:
  assumes "int (rebootingCount s) \<le> sint (maxRebootingNodes k)"
    and "length (rebootingNodes s) < 2 ^ 63"
  shows "int (rebootingCount (snd (markBeforeReboot k t1 t2 s))) \<le> sint (maxRebootingNodes k)"
proof (cases "insideRebootWindow k t1 t2")
  case False
  then show ?thesis using assms(1) by (simp add: markBeforeReboot_def)
next
  case True
  let ?rc = "remainingRebootingCapacity k s"
  show ?thesis
  proof (cases "?rc < 0 \<or> maxAlloc < PtrSize * ?rc")
    case refused: True
    then have "markBeforeReboot k t1 t2 s = (Some MakesliceCapOutOfRange, s)"
      using True
      by (simp add: markBeforeReboot_def markBeforeReboot_admit_def rebootableNodes_def Let_def)
    then show ?thesis using assms(1) by simp
  next
    case allocated: False
    let ?chosen = "take (nat ?rc) (nodesRequiringReboot s)"
    have res: "markBeforeReboot k t1 t2 s
               = mark_loop LabelBeforeReboot (beforeRebootAnnotations k) ?chosen s"
      using True allocated
      by (simp add: markBeforeReboot_def markBeforeReboot_admit_def rebootableNodes_def Let_def)
    have "0 \<le> sint (maxRebootingNodes k)"
      using assms(1) by linarith
    then have "int (length (rebootingNodes s)) \<le> sint (maxRebootingNodes k) + 2 ^ 63"
      using assms(2) by simp
    then have rc: "?rc = sint (maxRebootingNodes k) - int (length (rebootingNodes s))"
      unfolding remainingRebootingCapacity_def by (rule sint_sub_of_nat)
    have "rebootingCount (snd (markBeforeReboot k t1 t2 s)) \<le> rebootingCount s + length ?chosen"
      unfolding res rebootingCount_def by (rule mark_loop_count)
    moreover have "int (rebootingCount s) \<le> int (length (rebootingNodes s))"
      using rebootingCount_le_rebootingNodes by simp
    moreover have "length ?chosen \<le> nat ?rc"
      by simp
    ultimately show ?thesis
      using rc allocated by linarith
  qed
qed

theorem markBeforeReboot_keeps_budget_witness:
  "int (rebootingCount [rebootableNode, idleNode]) \<le> sint (maxRebootingNodes testKontroller)
   \<and> length (rebootingNodes [rebootableNode, idleNode]) < 2 ^ 63
   \<and> rebootingCount (snd (markBeforeReboot testKontroller 0 0 [rebootableNode, idleNode])) = 1
   \<and> int (rebootingCount (snd (markBeforeReboot testKontroller 0 0 [rebootableNode, idleNode])))
       \<le> sint (maxRebootingNodes testKontroller)"
proof -
  have h: "int (rebootingCount [rebootableNode, idleNode]) \<le> sint (maxRebootingNodes testKontroller)"
    by (simp add: rebootingCount_def inRebootingSet_def node_defs sel_defs testKontroller_def)
  have l: "length (rebootingNodes [rebootableNode, idleNode]) < 2 ^ 63"
    by (simp add: rebootingNodes_def node_defs sel_defs)
  have c: "rebootingCount (snd (markBeforeReboot testKontroller 0 0 [rebootableNode, idleNode])) = 1"
    by (simp add: phase_defs rebootingCount_def inRebootingSet_def node_defs sel_defs)
  from h l c markBeforeReboot_keeps_budget[OF h l, of 0 0] show ?thesis by simp
qed

section \<open>C4: the agent's annotations\<close>

lemma cleanupState_mutate_keeps:
  "cleanupState_mutate k n = Inr n' \<Longrightarrow> key \<notin> set (beforeRebootAnnotations k) \<Longrightarrow> keeps_key key n n'"
  by (auto simp: cleanupState_mutate_def keeps_key_def map_index_deleteAll split: if_splits)

lemma checkReboot_mutate_keeps:
  "checkReboot_mutate opt n = Inr n' \<Longrightarrow> key \<notin> set (annotations opt) \<Longrightarrow> key \<noteq> AnnotationOkToReboot
     \<Longrightarrow> keeps_key key n n'"
  by (auto simp: checkReboot_mutate_def keeps_key_def map_index_deleteAll
      dest!: map_assign_Inr[where a = key] split: sum.splits)

lemma mark_mutate_keeps:
  "mark_mutate lbl as n = Inr n' \<Longrightarrow> key \<notin> set as \<Longrightarrow> keeps_key key n n'"
  by (auto simp: mark_mutate_def keeps_key_def map_index_deleteAll split: sum.splits)

lemma keeps_key_refl: "keeps_key key n n"
  by (simp add: keeps_key_def)

lemma keeps_key_trans: "keeps_key key a b \<Longrightarrow> keeps_key key b c \<Longrightarrow> keeps_key key a c"
  by (simp add: keeps_key_def)

text \<open>
  Claim C4, as stated, fails: the closures delete the configured annotation keys, and
  nothing keeps an administrator from configuring \<open>reboot-needed\<close> as one. With
  \<open>reboot-needed\<close> as the before-reboot annotation, one tick on the scheduled node of
  the test file approves the reboot in phase D and deletes the node's \<open>reboot-needed\<close>.
\<close>

theorem process_deletes_configured_agent_key:
  "map_index (Annotations scheduledForRebootNode) AnnotationRebootNeeded = Some True_str
   \<and> map_index (Annotations (hd (snd (process
        (testKontroller\<lparr>beforeRebootAnnotations := [AnnotationRebootNeeded]\<rparr>) 0 0
        [scheduledForRebootNode])))) AnnotationRebootNeeded = None"
  by (simp add: phase_defs node_defs sel_defs)

text \<open>
  Claim C4, amended. A key among \<open>reboot-needed\<close>, \<open>reboot-in-progress\<close> and
  \<open>reboot-paused\<close> that is in neither configured annotation list is left as it is by
  every mutation closure of \<open>cleanupState\<close>, \<open>checkReboot\<close> and \<open>mark\<close>, and so by a
  whole tick: each node of the store keeps its name and its value of that key.
\<close>

theorem process_keeps_agent_keys:
  assumes "key \<in> {AnnotationRebootNeeded, AnnotationRebootInProgress, AnnotationRebootPaused}"
    and "key \<notin> set (beforeRebootAnnotations k)" "key \<notin> set (afterRebootAnnotations k)"
  shows "(\<forall>n n'. cleanupState_mutate k n = Inr n' \<longrightarrow> keeps_key key n n')
       \<and> (\<forall>n n'. checkReboot_mutate \<lparr>req = beforeRebootReq, annotations = beforeRebootAnnotations k,
                  label = LabelBeforeReboot, okToReboot = True_str\<rparr> n = Inr n' \<longrightarrow> keeps_key key n n')
       \<and> (\<forall>n n'. checkReboot_mutate \<lparr>req = afterRebootReq, annotations = afterRebootAnnotations k,
                  label = LabelAfterReboot, okToReboot = False_str\<rparr> n = Inr n' \<longrightarrow> keeps_key key n n')
       \<and> (\<forall>n n'. mark_mutate LabelBeforeReboot (beforeRebootAnnotations k) n = Inr n' \<longrightarrow> keeps_key key n n')
       \<and> (\<forall>n n'. mark_mutate LabelAfterReboot (afterRebootAnnotations k) n = Inr n' \<longrightarrow> keeps_key key n n')
       \<and> list_all2 (keeps_key key) s (snd (process k t1 t2 s))"
proof -
  have ok: "key \<noteq> AnnotationOkToReboot" using assms(1) by auto
  have cA: "cleanupState_mutate k n = Inr n' \<Longrightarrow> keeps_key key n n'" for n n'
    using cleanupState_mutate_keeps assms(2) by simp
  have cD: "checkReboot_mutate \<lparr>req = beforeRebootReq, annotations = beforeRebootAnnotations k,
                  label = LabelBeforeReboot, okToReboot = True_str\<rparr> n = Inr n' \<Longrightarrow> keeps_key key n n'" for n n'
    using checkReboot_mutate_keeps[of _ n n' key] assms(2) ok by simp
  have cB: "checkReboot_mutate \<lparr>req = afterRebootReq, annotations = afterRebootAnnotations k,
                  label = LabelAfterReboot, okToReboot = False_str\<rparr> n = Inr n' \<Longrightarrow> keeps_key key n n'" for n n'
    using checkReboot_mutate_keeps[of _ n n' key] assms(3) ok by simp
  have cE: "mark_mutate LabelBeforeReboot (beforeRebootAnnotations k) n = Inr n' \<Longrightarrow> keeps_key key n n'" for n n'
    using mark_mutate_keeps assms(2) by simp
  have cC: "mark_mutate LabelAfterReboot (afterRebootAnnotations k) n = Inr n' \<Longrightarrow> keeps_key key n n'" for n n'
    using mark_mutate_keeps assms(3) by simp
  have A: "list_all2 (keeps_key key) t (snd (cleanupState k t))" for t
    unfolding cleanupState_def cleanupState_loop_update_all
    by (rule update_all_rel) (auto intro: cA keeps_key_refl keeps_key_trans)
  have B: "list_all2 (keeps_key key) t (snd (checkAfterReboot k t))" for t
    unfolding checkAfterReboot_def checkReboot_def checkReboot_loop_update_all
    by (rule update_all_rel) (auto intro: cB keeps_key_refl keeps_key_trans)
  have C: "list_all2 (keeps_key key) t (snd (markAfterReboot k t))" for t
    unfolding markAfterReboot_def Let_def mark_loop_update_all
    by (rule update_all_rel) (auto intro: cC keeps_key_refl keeps_key_trans)
  have D: "list_all2 (keeps_key key) t (snd (checkBeforeReboot k t))" for t
    unfolding checkBeforeReboot_def checkReboot_def checkReboot_loop_update_all
    by (rule update_all_rel) (auto intro: cD keeps_key_refl keeps_key_trans)
  have E0: "list_all2 (keeps_key key) t (snd (mark_loop LabelBeforeReboot (beforeRebootAnnotations k) xs t))" for t xs
    unfolding mark_loop_update_all
    by (rule update_all_rel) (auto intro: cE keeps_key_refl keeps_key_trans)
  have E: "list_all2 (keeps_key key) t (snd (markBeforeReboot k t1 t2 t))" for t
    using E0[of t]
    by (auto simp: markBeforeReboot_def markBeforeReboot_admit_def list_all2_refl keeps_key_refl
        split: sum.splits)
  have "list_all2 (keeps_key key) s (snd (process k t1 t2 s))"
    by (rule process_rel[where Inv = "\<lambda>_. True"]) (auto intro: keeps_key_trans A B C D E)
  then show ?thesis using cA cB cC cD cE by blast
qed

theorem process_keeps_agent_keys_witness:
  "AnnotationRebootNeeded \<notin> set (beforeRebootAnnotations
       (testKontroller\<lparr>beforeRebootAnnotations := [testBeforeRebootAnnotation]\<rparr>))
   \<and> list_all2 (keeps_key AnnotationRebootNeeded) [readyToRebootNode, justRebootedNode]
       (snd (process (testKontroller\<lparr>beforeRebootAnnotations := [testBeforeRebootAnnotation]\<rparr>) 0 0
          [readyToRebootNode, justRebootedNode]))
   \<and> map_index (Annotations (hd (snd (process
          (testKontroller\<lparr>beforeRebootAnnotations := [testBeforeRebootAnnotation]\<rparr>) 0 0
          [readyToRebootNode, justRebootedNode])))) AnnotationOkToReboot = Some True_str"
proof -
  let ?k = "testKontroller\<lparr>beforeRebootAnnotations := [testBeforeRebootAnnotation]\<rparr>"
  have h1: "AnnotationRebootNeeded \<in> {AnnotationRebootNeeded, AnnotationRebootInProgress, AnnotationRebootPaused}"
    by simp
  have h2: "AnnotationRebootNeeded \<notin> set (beforeRebootAnnotations ?k)"
    by (simp add: node_defs)
  have h3: "AnnotationRebootNeeded \<notin> set (afterRebootAnnotations ?k)"
    by (simp add: node_defs)
  have "map_index (Annotations (hd (snd (process ?k 0 0 [readyToRebootNode, justRebootedNode]))))
          AnnotationOkToReboot = Some True_str"
    by (simp add: phase_defs node_defs sel_defs)
  then show ?thesis
    using h2 process_keeps_agent_keys[OF h1 h2 h3, of "[readyToRebootNode, justRebootedNode]" 0 0]
    by simp
qed

section \<open>C5: the reboot window\<close>

text \<open>
  Claim C5. With a reboot window configured and the clock not before the end of the
  most recently opened window, phase E (\<open>markBeforeReboot\<close>) returns without an error
  and leaves the store as it is, so no node gets the \<open>before-reboot\<close> label. With no
  window configured \<open>insideRebootWindow\<close> is true at all instants and the phase is its
  admission part.
\<close>

theorem markBeforeReboot_window:
  "(\<forall>previous. rebootWindow k = Some previous \<and> \<not> t2 < End (previous t1)
       \<longrightarrow> \<not> insideRebootWindow k t1 t2 \<and> markBeforeReboot k t1 t2 s = (None, s))
   \<and> (rebootWindow k = None
       \<longrightarrow> insideRebootWindow k t1 t2 \<and> markBeforeReboot k t1 t2 s = markBeforeReboot_admit k s)"
  by (simp add: markBeforeReboot_def insideRebootWindow_def)

theorem markBeforeReboot_window_witness:
  "rebootWindow (testKontroller\<lparr>rebootWindow := Some closedWindow\<rparr>) = Some closedWindow
   \<and> \<not> (1000000 :: int) < End (closedWindow 1000000)
   \<and> markBeforeReboot (testKontroller\<lparr>rebootWindow := Some closedWindow\<rparr>) 1000000 1000000
        [rebootableNode] = (None, [rebootableNode])
   \<and> rebootWindow testKontroller = None
   \<and> insideRebootWindow testKontroller 1000000 1000000
   \<and> markBeforeReboot testKontroller 1000000 1000000 [rebootableNode]
       = markBeforeReboot_admit testKontroller [rebootableNode]
   \<and> map_index (Labels (hd (snd (markBeforeReboot testKontroller 1000000 1000000 [rebootableNode]))))
        LabelBeforeReboot = Some True_str"
proof -
  let ?k = "testKontroller\<lparr>rebootWindow := Some closedWindow\<rparr>"
  have h1: "rebootWindow ?k = Some closedWindow \<and> \<not> (1000000 :: int) < End (closedWindow 1000000)"
    by (simp add: closedWindow_def)
  have h2: "rebootWindow testKontroller = None"
    by (simp add: testKontroller_def)
  have a: "markBeforeReboot ?k 1000000 1000000 [rebootableNode] = (None, [rebootableNode])"
    using markBeforeReboot_window[of ?k 1000000 1000000 "[rebootableNode]"] h1 by blast
  have b: "insideRebootWindow testKontroller 1000000 1000000
       \<and> markBeforeReboot testKontroller 1000000 1000000 [rebootableNode]
           = markBeforeReboot_admit testKontroller [rebootableNode]"
    using markBeforeReboot_window[of testKontroller 1000000 1000000 "[rebootableNode]"] h2 by blast
  have c: "map_index (Labels (hd (snd (markBeforeReboot testKontroller 1000000 1000000 [rebootableNode]))))
        LabelBeforeReboot = Some True_str"
    by (simp add: phase_defs node_defs sel_defs)
  show ?thesis using h1 h2 a b c by simp
qed

section \<open>C6: no remaining capacity\<close>

lemma markBeforeReboot_no_capacity:
  "remainingRebootingCapacity k s = 0 \<Longrightarrow> markBeforeReboot k t1 t2 s = (None, s)"
  by (simp add: markBeforeReboot_def markBeforeReboot_admit_def rebootableNodes_def
      maxAlloc_def PtrSize_def)

text \<open>
  Claim C6 holds of the code at remaining capacity zero only. With budget 1 and two
  nodes labelled \<open>before-reboot=true\<close> (their before-reboot annotation not yet set) the
  remaining capacity is \<open>- 1\<close>, \<open>rebootableNodes\<close> asks \<open>make\<close> for a slice of capacity
  \<open>- 1\<close>, and phase E panics instead of returning: no node is modified, but the phase does
  not return without error.
\<close>

theorem markBeforeReboot_over_capacity_panics:
  "remainingRebootingCapacity (testKontroller\<lparr>beforeRebootAnnotations := [testBeforeRebootAnnotation]\<rparr>)
      [scheduledForRebootNode, secondScheduledNode] = - 1
   \<and> insideRebootWindow (testKontroller\<lparr>beforeRebootAnnotations := [testBeforeRebootAnnotation]\<rparr>) 0 0
   \<and> markBeforeReboot (testKontroller\<lparr>beforeRebootAnnotations := [testBeforeRebootAnnotation]\<rparr>) 0 0
        [scheduledForRebootNode, secondScheduledNode]
       = (Some MakesliceCapOutOfRange, [scheduledForRebootNode, secondScheduledNode])"
  by (simp add: phase_defs node_defs sel_defs)

section \<open>C7: the remaining capacity\<close>

text \<open>
  Claim C7 does not hold of the code: \<open>remainingRebootingCapacity\<close> appends the three
  node lists and subtracts the length of the result, so a node of two lists is counted
  twice. The node \<open>overlap\<close> carries label \<open>after-reboot=true\<close> while its agent reports
  \<open>reboot-needed=true\<close> and \<open>ok-to-reboot\<close> is still \<open>true\<close>: it is the one rebooting
  node of the store and is twice in the appended list. With budget 2 the function
  returns 0, where the budget less the number of rebooting nodes is 1, and phase E
  leaves the rebootable node beside it unlabelled. With budget 1 the function returns
  \<open>- 1\<close>, where the budget less the number of rebooting nodes is 0, and phase E
  panics in \<open>make\<close>.
\<close>

theorem remainingRebootingCapacity_counts_twice:
  "rebootingNodes [overlapNode, rebootableNode] = [overlapNode, overlapNode]
   \<and> nodesRequiringReboot [overlapNode, rebootableNode] = [rebootableNode]
   \<and> remainingRebootingCapacity (testKontroller\<lparr>maxRebootingNodes := 2\<rparr>)
        [overlapNode, rebootableNode] = 0
   \<and> sint (maxRebootingNodes (testKontroller\<lparr>maxRebootingNodes := 2\<rparr>))
       - int (card (set (FilterNodesByAnnotation [overlapNode, rebootableNode] stillRebootingSelector)
                    \<union> set (FilterNodesByRequirement [overlapNode, rebootableNode] beforeRebootReq)
                    \<union> set (FilterNodesByRequirement [overlapNode, rebootableNode] afterRebootReq)))
       = 1
   \<and> markBeforeReboot (testKontroller\<lparr>maxRebootingNodes := 2\<rparr>) 0 0 [overlapNode, rebootableNode]
       = (None, [overlapNode, rebootableNode])
   \<and> remainingRebootingCapacity testKontroller [overlapNode, rebootableNode] = - 1
   \<and> sint (maxRebootingNodes testKontroller)
       - int (card (set (FilterNodesByAnnotation [overlapNode, rebootableNode] stillRebootingSelector)
                    \<union> set (FilterNodesByRequirement [overlapNode, rebootableNode] beforeRebootReq)
                    \<union> set (FilterNodesByRequirement [overlapNode, rebootableNode] afterRebootReq)))
       = 0
   \<and> markBeforeReboot testKontroller 0 0 [overlapNode, rebootableNode]
       = (Some MakesliceCapOutOfRange, [overlapNode, rebootableNode])"
proof -
  have nodes: "rebootingNodes [overlapNode, rebootableNode] = [overlapNode, overlapNode]"
    by (simp add: rebootingNodes_def node_defs sel_defs)
  have wanting: "nodesRequiringReboot [overlapNode, rebootableNode] = [rebootableNode]"
    by (simp add: nodesRequiringReboot_def node_defs sel_defs)
  have union: "card (set (FilterNodesByAnnotation [overlapNode, rebootableNode] stillRebootingSelector)
            \<union> set (FilterNodesByRequirement [overlapNode, rebootableNode] beforeRebootReq)
            \<union> set (FilterNodesByRequirement [overlapNode, rebootableNode] afterRebootReq)) = 1"
    by (simp add: node_defs sel_defs)
  have two: "remainingRebootingCapacity (testKontroller\<lparr>maxRebootingNodes := 2\<rparr>)
        [overlapNode, rebootableNode] = 0"
    by (simp add: remainingRebootingCapacity_def nodes testKontroller_def)
  have one: "remainingRebootingCapacity testKontroller [overlapNode, rebootableNode] = - 1"
    by (simp add: remainingRebootingCapacity_def nodes testKontroller_def)
  have "markBeforeReboot (testKontroller\<lparr>maxRebootingNodes := 2\<rparr>) 0 0 [overlapNode, rebootableNode]
       = (None, [overlapNode, rebootableNode])"
    using two
    by (simp add: markBeforeReboot_def markBeforeReboot_admit_def rebootableNodes_def
        maxAlloc_def PtrSize_def mark_loop.simps)
  moreover have "markBeforeReboot testKontroller 0 0 [overlapNode, rebootableNode]
       = (Some MakesliceCapOutOfRange, [overlapNode, rebootableNode])"
    using one
    by (simp add: markBeforeReboot_def markBeforeReboot_admit_def rebootableNodes_def
        insideRebootWindow_def testKontroller_def)
  ultimately show ?thesis
    using nodes wanting two one by (simp add: union testKontroller_def)
qed

section \<open>C10: nil maps\<close>

text \<open>
  Claim C10. No closure creates a map: a nil label or annotation map stays nil and an
  allocated one stays allocated. The closure of \<open>checkReboot\<close> faults exactly on a node
  whose annotation map is nil, the closure of \<open>mark\<close> exactly on a node whose label map
  is nil; the closure of \<open>cleanupState\<close>, which only deletes, never faults.
\<close>

theorem closures_fault_on_nil_map:
  "(checkReboot_mutate opt node = Inl NilMapAssignment \<longleftrightarrow> Annotations node = None)
   \<and> (mark_mutate lbl as node = Inl NilMapAssignment \<longleftrightarrow> Labels node = None)
   \<and> (\<exists>n'. cleanupState_mutate k node = Inr n')
   \<and> (Annotations node \<noteq> None \<longrightarrow> (\<exists>n'. checkReboot_mutate opt node = Inr n'))
   \<and> (Labels node \<noteq> None \<longrightarrow> (\<exists>n'. mark_mutate lbl as node = Inr n'))
   \<and> (\<forall>n'. cleanupState_mutate k node = Inr n' \<or> checkReboot_mutate opt node = Inr n'
            \<or> mark_mutate lbl as node = Inr n'
         \<longrightarrow> (Labels n' = None \<longleftrightarrow> Labels node = None)
           \<and> (Annotations n' = None \<longleftrightarrow> Annotations node = None))"
  by (cases "Annotations node"; cases "Labels node")
     (auto simp: checkReboot_mutate_def mark_mutate_def cleanupState_mutate_def
        map_assign_def map_delete_def deleteAll_Some split: if_splits)

theorem closures_fault_on_nil_map_witness:
  "Annotations unannotatedScheduledNode = None
   \<and> checkReboot_mutate \<lparr>req = beforeRebootReq, annotations = [], label = LabelBeforeReboot,
         okToReboot = True_str\<rparr> unannotatedScheduledNode = Inl NilMapAssignment
   \<and> checkBeforeReboot testKontroller [unannotatedScheduledNode]
       = (Some NilMapAssignment, [unannotatedScheduledNode])
   \<and> Labels toBeRebootedNode = None
   \<and> mark_mutate LabelBeforeReboot [] toBeRebootedNode = Inl NilMapAssignment
   \<and> Labels rebootableNode \<noteq> None
   \<and> mark_mutate LabelBeforeReboot [] rebootableNode
       = Inr (rebootableNode\<lparr>Labels := Some [''reboot-needed'' \<mapsto> True_str, LabelBeforeReboot \<mapsto> True_str]\<rparr>)"
proof -
  let ?opt = "\<lparr>req = beforeRebootReq, annotations = [], label = LabelBeforeReboot, okToReboot = True_str\<rparr>"
  have a: "Annotations unannotatedScheduledNode = None" by (simp add: node_defs)
  have l: "Labels toBeRebootedNode = None" by (simp add: node_defs)
  have a': "checkReboot_mutate ?opt unannotatedScheduledNode = Inl NilMapAssignment"
    using closures_fault_on_nil_map[of ?opt unannotatedScheduledNode] a by blast
  have l': "mark_mutate LabelBeforeReboot [] toBeRebootedNode = Inl NilMapAssignment"
    using closures_fault_on_nil_map[of _ toBeRebootedNode LabelBeforeReboot "[]"] l by blast
  have p: "checkBeforeReboot testKontroller [unannotatedScheduledNode]
       = (Some NilMapAssignment, [unannotatedScheduledNode])"
    by (simp add: phase_defs node_defs sel_defs)
  have m: "mark_mutate LabelBeforeReboot [] rebootableNode
       = Inr (rebootableNode\<lparr>Labels := Some [''reboot-needed'' \<mapsto> True_str, LabelBeforeReboot \<mapsto> True_str]\<rparr>)"
    by (simp add: phase_defs node_defs)
  show ?thesis using a l a' l' p m by (simp add: node_defs)
qed

section \<open>The store a loop leaves\<close>

lemma UpdateNodeRetry_distinct:
  assumes "distinct (map Name s)" "n \<in> set s"
  shows "UpdateNodeRetry (Name n) f s
         = (case f n of Inl e \<Rightarrow> Inl e
            | Inr n' \<Rightarrow> Inr (map (\<lambda>x. if Name x = Name n then n' else x) s))"
  using assms
proof (induction s)
  case Nil
  then show ?case by simp
next
  case (Cons h t)
  show ?case
  proof (cases "Name h = Name n")
    case True
    with Cons.prems have "h = n" by (auto simp: image_iff)
    moreover have "map (\<lambda>x. if Name x = Name n then n' else x) t = t" for n'
      using Cons.prems True by (intro map_idI) (auto simp: image_iff)
    ultimately show ?thesis by (simp split: sum.splits)
  next
    case False
    with Cons.prems have "n \<in> set t" "distinct (map Name t)" by auto
    then show ?thesis using Cons.IH False by (simp split: sum.splits)
  qed
qed

text \<open>
  With distinct node names a loop of updates applies the closure to the nodes of a
  prefix of the names, the whole list when it returns no error, and stops at the first
  node on which the closure fails.
\<close>

lemma update_all_char:
  assumes "distinct (map Name s)" "distinct nms" "set nms \<subseteq> Name ` set s"
    and name: "\<And>n n'. f n = Inr n' \<Longrightarrow> Name n' = Name n"
  shows "\<exists>j. loop_char f nms s j"
  using assms(1-3)
proof (induction nms arbitrary: s)
  case Nil
  have "loop_char f [] s 0" by (simp add: loop_char_def map_idI)
  then show ?case ..
next
  case (Cons nm nms)
  from Cons.prems obtain n where n: "n \<in> set s" "Name n = nm" by auto
  show ?case
  proof (cases "f n")
    case (Inl e)
    then have "update_all f (nm # nms) s = (Some e, s)"
      using UpdateNodeRetry_distinct[OF Cons.prems(1) n(1), of f] n(2) by simp
    then have "loop_char f (nm # nms) s 0"
      using n Inl by (auto simp: loop_char_def map_idI)
    then show ?thesis ..
  next
    case (Inr n')
    define s1 where "s1 = map (\<lambda>x. if Name x = nm then n' else x) s"
    have upd: "UpdateNodeRetry nm f s = Inr s1"
      using UpdateNodeRetry_distinct[OF Cons.prems(1) n(1), of f] n(2) Inr by (simp add: s1_def)
    have n'name: "Name n' = nm" using name[OF Inr] n(2) by simp
    have names1: "map Name s1 = map Name s"
      by (simp add: s1_def n'name cong: map_cong)
    have d1: "distinct (map Name s1)" using Cons.prems(1) names1 by simp
    have "Name ` set s1 = Name ` set s" using names1 by (metis list.set_map)
    then have sub1: "set nms \<subseteq> Name ` set s1"
      using Cons.prems(3) by simp
    have "distinct nms" using Cons.prems(2) by simp
    from Cons.IH[OF d1 this sub1]
    obtain j where "loop_char f nms s1 j" ..
    then have j: "j \<le> length nms"
      "snd (update_all f nms s1) = map (\<lambda>n. if Name n \<in> set (take j nms) then applied f n else n) s1"
      "\<And>x. x \<in> set s1 \<Longrightarrow> Name x \<in> set (take j nms) \<Longrightarrow> f x = Inr (applied f x)"
      "fst (update_all f nms s1) = None \<Longrightarrow> j = length nms"
      "\<And>e. fst (update_all f nms s1) = Some e
                \<Longrightarrow> j < length nms \<and> (\<exists>n \<in> set s1. Name n = nms ! j \<and> f n = Inl e)"
      unfolding loop_char_def by blast+
    have nm_notin: "nm \<notin> set nms" using Cons.prems(2) by simp
    have uniq: "x = n" if "x \<in> set s" "Name x = nm" for x
      using that n Cons.prems(1) by (metis distinct_map inj_onD)
    have keep: "x \<in> set s" if "x \<in> set s1" "Name x \<noteq> nm" for x
      using that n'name by (auto simp: s1_def split: if_splits)
    have keep': "x \<in> set s1" if "x \<in> set s" "Name x \<noteq> nm" for x
      using that by (auto simp: s1_def image_iff intro!: bexI[of _ x])
    have res: "update_all f (nm # nms) s = update_all f nms s1"
      using upd by simp
    have app_n: "applied f n = n'" using Inr by (simp add: applied_def)
    have "map (\<lambda>n. if Name n \<in> set (take j nms) then applied f n else n) s1
          = map (\<lambda>n. if Name n \<in> set (take (Suc j) (nm # nms)) then applied f n else n) s"
      unfolding s1_def map_map
    proof (rule map_cong[OF refl])
      fix x assume xs: "x \<in> set s"
      show "((\<lambda>n. if Name n \<in> set (take j nms) then applied f n else n) \<circ>
              (\<lambda>x. if Name x = nm then n' else x)) x
            = (if Name x \<in> set (take (Suc j) (nm # nms)) then applied f x else x)"
      proof (cases "Name x = nm")
        case True
        then have "x = n" using uniq xs by simp
        moreover have "nm \<notin> set (take j nms)" using nm_notin by (meson in_set_takeD)
        ultimately show ?thesis using True n'name app_n by simp
      next
        case False
        then show ?thesis by simp
      qed
    qed
    then have c2: "snd (update_all f (nm # nms) s)
          = map (\<lambda>n. if Name n \<in> set (take (Suc j) (nm # nms)) then applied f n else n) s"
      using res j(2) by simp
    have c3: "\<forall>x \<in> set s. Name x \<in> set (take (Suc j) (nm # nms)) \<longrightarrow> f x = Inr (applied f x)"
    proof (intro ballI impI)
      fix x assume x: "x \<in> set s" "Name x \<in> set (take (Suc j) (nm # nms))"
      show "f x = Inr (applied f x)"
      proof (cases "Name x = nm")
        case True
        then have "x = n" using uniq x(1) by simp
        then show ?thesis using Inr app_n by simp
      next
        case False
        then have "Name x \<in> set (take j nms)" using x(2) by simp
        then show ?thesis using j(3) keep'[OF x(1) False] by simp
      qed
    qed
    have c4: "fst (update_all f (nm # nms) s) = None \<longrightarrow> Suc j = length (nm # nms)"
      using j(4) res by simp
    have c5: "\<forall>e. fst (update_all f (nm # nms) s) = Some e
                \<longrightarrow> Suc j < length (nm # nms) \<and> (\<exists>x \<in> set s. Name x = (nm # nms) ! Suc j \<and> f x = Inl e)"
    proof (intro allI impI)
      fix e assume "fst (update_all f (nm # nms) s) = Some e"
      then have "fst (update_all f nms s1) = Some e" using res by simp
      from j(5)[OF this] obtain x where jl: "j < length nms"
        and x: "x \<in> set s1" "Name x = nms ! j" "f x = Inl e" by blast
      have "Name x \<noteq> nm" using x(2) nm_notin jl by (metis nth_mem)
      then have "x \<in> set s" using keep x(1) by simp
      then show "Suc j < length (nm # nms) \<and> (\<exists>x \<in> set s. Name x = (nm # nms) ! Suc j \<and> f x = Inl e)"
        using x jl by auto
    qed
    have "loop_char f (nm # nms) s (Suc j)"
      unfolding loop_char_def using j(1) c2 c3 c4 c5 by simp
    then show ?thesis ..
  qed
qed

lemma Name_filter_iff:
  assumes "distinct (map Name s)" "n \<in> set s"
  shows "Name n \<in> Name ` set (filter P s) \<longleftrightarrow> P n"
proof
  assume "Name n \<in> Name ` set (filter P s)"
  then obtain m where m: "m \<in> set s" "P m" "Name m = Name n" by auto
  then have "m = n" using assms by (metis distinct_map inj_onD)
  then show "P n" using m by simp
next
  assume "P n"
  then show "Name n \<in> Name ` set (filter P s)" using assms(2) by auto
qed

text \<open>A loop on which no closure fails: the closure applied to exactly the named nodes.\<close>

lemma update_all_total:
  assumes d: "distinct (map Name s)"
    and name: "\<And>n n'. f n = Inr n' \<Longrightarrow> Name n' = Name n"
    and ok: "\<And>n. n \<in> set s \<Longrightarrow> P n \<Longrightarrow> \<exists>n'. f n = Inr n'"
  shows "update_all f (map Name (filter P s)) s
         = (None, map (\<lambda>n. if P n then applied f n else n) s)"
proof -
  let ?nms = "map Name (filter P s)"
  have dn: "distinct ?nms" using d by (simp add: distinct_map_filter)
  have sub: "set ?nms \<subseteq> Name ` set s" by auto
  obtain j where "loop_char f ?nms s j"
    using update_all_char[OF d dn sub name] by blast
  then have j: "snd (update_all f ?nms s) = map (\<lambda>n. if Name n \<in> set (take j ?nms) then applied f n else n) s"
      "fst (update_all f ?nms s) = None \<Longrightarrow> j = length ?nms"
      "\<And>e. fst (update_all f ?nms s) = Some e
                \<Longrightarrow> j < length ?nms \<and> (\<exists>n \<in> set s. Name n = ?nms ! j \<and> f n = Inl e)"
    unfolding loop_char_def by blast+
  have none: "fst (update_all f ?nms s) = None"
  proof (rule ccontr)
    assume "fst (update_all f ?nms s) \<noteq> None"
    then obtain e where "fst (update_all f ?nms s) = Some e" by auto
    from j(3)[OF this] obtain n where jl: "j < length ?nms"
      and n: "n \<in> set s" "Name n = ?nms ! j" "f n = Inl e" by blast
    have "Name n \<in> set ?nms" using jl n(2) nth_mem by metis
    then have "P n" using Name_filter_iff[OF d n(1), of P] by simp
    then show False using ok[OF n(1)] n(3) by auto
  qed
  then have "j = length ?nms" by (rule j(2))
  then have "snd (update_all f ?nms s) = map (\<lambda>n. if Name n \<in> set ?nms then applied f n else n) s"
    using j(1) by simp
  also have "\<dots> = map (\<lambda>n. if P n then applied f n else n) s"
    using Name_filter_iff[OF d, of _ P] by (intro map_cong[OF refl]) simp
  finally show ?thesis using none by (simp add: prod_eq_iff)
qed

section \<open>C3: phase A\<close>

lemma cleanupState_eq:
  assumes "distinct (map Name s)"
  shows "cleanupState k s = (None, map (applied (cleanupState_mutate k)) s)"
proof -
  have "update_all (cleanupState_mutate k) (map Name (filter (\<lambda>n. True) s)) s
        = (None, map (\<lambda>n. if True then applied (cleanupState_mutate k) n else n) s)"
    by (rule update_all_total[OF assms cleanupState_mutate_Name])
       (simp_all add: cleanupState_mutate_def)
  then show ?thesis
    by (simp add: cleanupState_def cleanupState_loop_update_all)
qed

lemma applied_cleanupState_mutate:
  "applied (cleanupState_mutate k) n
     = (if map_index (Labels n) LabelBeforeReboot \<noteq> None
          \<and> \<not> Selector_Matches rebootableSelector (Annotations n)
        then n\<lparr>Labels := map_delete (Labels n) LabelBeforeReboot,
               Annotations := deleteAll (beforeRebootAnnotations k) (Annotations n)\<rparr>
        else n)"
  by (simp add: applied_def cleanupState_mutate_def)

text \<open>
  Claim C3, as stated, fails where \<open>ok-to-reboot\<close> is itself a configured before-reboot
  annotation key: phase A deletes every configured key, so it cannot leave that one
  unchanged. The labelled node below is approved (\<open>ok-to-reboot=true\<close>), hence not
  rebootable, and loses its \<open>ok-to-reboot\<close> annotation with its label.
\<close>

theorem cleanupState_deletes_configured_ok_to_reboot:
  "Requirement_Matches beforeRebootReq (Labels approvedLabelledNode)
   \<and> \<not> Selector_Matches rebootableSelector (Annotations approvedLabelledNode)
   \<and> map_index (Annotations approvedLabelledNode) AnnotationOkToReboot = Some True_str
   \<and> map_index (Annotations (hd (snd (cleanupState
         (testKontroller\<lparr>beforeRebootAnnotations := [AnnotationOkToReboot]\<rparr>)
         [approvedLabelledNode])))) AnnotationOkToReboot = None"
  by (simp add: phase_defs node_defs sel_defs)

text \<open>
  Claim C3, amended. In a store of distinctly named nodes phase A (\<open>cleanupState\<close>)
  returns no error; of every node with label \<open>before-reboot=true\<close> whose annotations do
  not satisfy the rebootable selector it removes the \<open>before-reboot\<close> label and every
  configured before-reboot annotation key and leaves every other label and annotation
  as it is, \<open>ok-to-reboot\<close> among them unless it is one of the configured keys; every
  node without the \<open>before-reboot\<close> label and every labelled node that is still
  rebootable is left as it is.
\<close>

theorem cleanupState_effect:
  assumes "distinct (map Name s)"
  shows "fst (cleanupState k s) = None
       \<and> list_all2 (\<lambda>n n'.
            (Requirement_Matches beforeRebootReq (Labels n)
               \<and> \<not> Selector_Matches rebootableSelector (Annotations n)
             \<longrightarrow> cleaned_up k n n'
                 \<and> (AnnotationOkToReboot \<notin> set (beforeRebootAnnotations k)
                      \<longrightarrow> map_index (Annotations n') AnnotationOkToReboot
                          = map_index (Annotations n) AnnotationOkToReboot))
          \<and> (map_index (Labels n) LabelBeforeReboot = None
               \<or> Selector_Matches rebootableSelector (Annotations n)
             \<longrightarrow> n' = n))
          s (snd (cleanupState k s))"
proof -
  let ?P = "\<lambda>n n'.
            (Requirement_Matches beforeRebootReq (Labels n)
               \<and> \<not> Selector_Matches rebootableSelector (Annotations n)
             \<longrightarrow> cleaned_up k n n'
                 \<and> (AnnotationOkToReboot \<notin> set (beforeRebootAnnotations k)
                      \<longrightarrow> map_index (Annotations n') AnnotationOkToReboot
                          = map_index (Annotations n) AnnotationOkToReboot))
          \<and> (map_index (Labels n) LabelBeforeReboot = None
               \<or> Selector_Matches rebootableSelector (Annotations n)
             \<longrightarrow> n' = n)"
  have node: "?P n (applied (cleanupState_mutate k) n)" for n
  proof (cases "map_index (Labels n) LabelBeforeReboot \<noteq> None
          \<and> \<not> Selector_Matches rebootableSelector (Annotations n)")
    case True
    then show ?thesis
      by (simp add: applied_cleanupState_mutate cleaned_up_def map_index_map_delete
          map_index_deleteAll)
  next
    case False
    moreover have "\<not> Requirement_Matches beforeRebootReq (Labels n)"
      if "map_index (Labels n) LabelBeforeReboot = None"
      using that by (simp add: beforeRebootReq_def)
    ultimately show ?thesis
      by (auto simp: applied_cleanupState_mutate)
  qed
  have "list_all2 ?P s (map (applied (cleanupState_mutate k)) s)"
    unfolding list_all2_map2 by (rule list_all2_all_nthI) (simp_all add: node)
  then show ?thesis
    unfolding cleanupState_eq[OF assms] by simp
qed

theorem cleanupState_effect_witness:
  "distinct (map Name [rebootCancelledNode, toBeRebootedNode, scheduledForRebootNode])
   \<and> cleanupState (testKontroller\<lparr>beforeRebootAnnotations := [testBeforeRebootAnnotation]\<rparr>)
        [rebootCancelledNode, toBeRebootedNode, scheduledForRebootNode]
      = (None, [rebootCancelledNode\<lparr>Labels := Some Map.empty, Annotations := Some Map.empty\<rparr>,
                toBeRebootedNode, scheduledForRebootNode])"
proof -
  let ?k = "testKontroller\<lparr>beforeRebootAnnotations := [testBeforeRebootAnnotation]\<rparr>"
  let ?s = "[rebootCancelledNode, toBeRebootedNode, scheduledForRebootNode]"
  have d: "distinct (map Name ?s)" by (simp add: node_defs)
  have "fst (cleanupState ?k ?s) = None"
    using cleanupState_effect[OF d, of ?k] by blast
  moreover have "snd (cleanupState ?k ?s)
      = [rebootCancelledNode\<lparr>Labels := Some Map.empty, Annotations := Some Map.empty\<rparr>,
         toBeRebootedNode, scheduledForRebootNode]"
    by (simp add: phase_defs node_defs sel_defs)
  ultimately show ?thesis using d by (simp add: prod_eq_iff)
qed

section \<open>C2: phases B and D\<close>

lemma checkReboot_eq:
  assumes d: "distinct (map Name s)"
    and nonnil: "\<And>n. n \<in> set s \<Longrightarrow> Requirement_Matches (req opt) (Labels n)
                   \<Longrightarrow> hasAllAnnotations n (annotations opt) \<Longrightarrow> Annotations n \<noteq> None"
  shows "checkReboot opt s
         = (None, map (\<lambda>n. if Requirement_Matches (req opt) (Labels n)
                                \<and> hasAllAnnotations n (annotations opt)
                             then applied (checkReboot_mutate opt) n else n) s)"
proof -
  let ?P = "\<lambda>n. Requirement_Matches (req opt) (Labels n) \<and> hasAllAnnotations n (annotations opt)"
  have "update_all (checkReboot_mutate opt) (map Name (filter ?P s)) s
        = (None, map (\<lambda>n. if ?P n then applied (checkReboot_mutate opt) n else n) s)"
  proof (rule update_all_total[OF d checkReboot_mutate_Name])
    fix n assume "n \<in> set s" "?P n"
    then have "Annotations n \<noteq> None" using nonnil by blast
    then show "\<exists>n'. checkReboot_mutate opt n = Inr n'"
      by (auto simp: checkReboot_mutate_def map_assign_def deleteAll_Some)
  qed
  then show ?thesis
    by (simp add: checkReboot_def checkReboot_loop_update_all FilterNodesByRequirement_def)
qed

lemma applied_checkReboot_mutate:
  assumes "Annotations n \<noteq> None"
  shows "checked_off (label opt) (annotations opt) (okToReboot opt) n
           (applied (checkReboot_mutate opt) n)"
proof -
  from assms obtain m where m: "Annotations n = Some m" by auto
  then show ?thesis
    by (simp add: applied_def checkReboot_mutate_def map_assign_def deleteAll_Some
        checked_off_def map_index_map_delete) (simp add: map_index_def)
qed

lemma checkReboot_effect_gen:
  assumes d: "distinct (map Name s)"
    and nonnil: "\<forall>n \<in> set s. Requirement_Matches (req opt) (Labels n)
                   \<and> hasAllAnnotations n (annotations opt) \<longrightarrow> Annotations n \<noteq> None"
  shows "fst (checkReboot opt s) = None
       \<and> list_all2 (\<lambda>n n'.
            (Requirement_Matches (req opt) (Labels n) \<and> hasAllAnnotations n (annotations opt)
               \<longrightarrow> checked_off (label opt) (annotations opt) (okToReboot opt) n n')
          \<and> (\<not> (Requirement_Matches (req opt) (Labels n) \<and> hasAllAnnotations n (annotations opt))
               \<longrightarrow> n' = n))
          s (snd (checkReboot opt s))"
proof -
  let ?sel = "\<lambda>n. Requirement_Matches (req opt) (Labels n) \<and> hasAllAnnotations n (annotations opt)"
  have eq: "checkReboot opt s
         = (None, map (\<lambda>n. if ?sel n then applied (checkReboot_mutate opt) n else n) s)"
    using nonnil by (intro checkReboot_eq[OF d]) blast
  have "list_all2 (\<lambda>n n'.
            (?sel n \<longrightarrow> checked_off (label opt) (annotations opt) (okToReboot opt) n n')
          \<and> (\<not> ?sel n \<longrightarrow> n' = n))
          s (map (\<lambda>n. if ?sel n then applied (checkReboot_mutate opt) n else n) s)"
    unfolding list_all2_map2
  proof (rule list_all2_all_nthI)
    fix i assume "i < length s"
    then have "s ! i \<in> set s" by simp
    then show "(?sel (s ! i) \<longrightarrow> checked_off (label opt) (annotations opt) (okToReboot opt) (s ! i)
                   (if ?sel (s ! i) then applied (checkReboot_mutate opt) (s ! i) else s ! i))
          \<and> (\<not> ?sel (s ! i) \<longrightarrow> (if ?sel (s ! i) then applied (checkReboot_mutate opt) (s ! i) else s ! i) = s ! i)"
      using nonnil applied_checkReboot_mutate[of "s ! i" opt] by auto
  qed simp
  then show ?thesis unfolding eq by simp
qed

text \<open>
  Claim C2, as stated, fails on a node that has no annotation map. With no before-reboot
  annotation configured the labelled node below has all (none) of them set, yet phase D
  does not update it: the assignment of \<open>ok-to-reboot\<close> faults and the phase stops.
\<close>

theorem checkBeforeReboot_faults_without_annotations:
  "Requirement_Matches beforeRebootReq (Labels unannotatedScheduledNode)
   \<and> hasAllAnnotations unannotatedScheduledNode (beforeRebootAnnotations testKontroller)
   \<and> checkBeforeReboot testKontroller [unannotatedScheduledNode, scheduledForRebootNode]
       = (Some NilMapAssignment, [unannotatedScheduledNode, scheduledForRebootNode])"
  by (simp add: phase_defs node_defs sel_defs)

text \<open>
  Claim C2, amended. In a store of distinctly named nodes in which every node that
  carries the phase's label with all configured annotation keys at \<open>true\<close> has an
  annotation map, phases D (\<open>checkBeforeReboot\<close>) and B (\<open>checkAfterReboot\<close>) return no
  error; each such node is updated once: the label and the configured annotation keys
  are deleted and \<open>ok-to-reboot\<close> is set, to \<open>true\<close> in phase D and to \<open>false\<close> in phase B,
  every other label and annotation staying as it is; every other node, in particular a
  labelled one with a configured annotation missing or not \<open>true\<close>, is left as it is.
\<close>

theorem checkReboot_effect:
  "(distinct (map Name s)
      \<and> (\<forall>n \<in> set s. Requirement_Matches beforeRebootReq (Labels n)
              \<and> hasAllAnnotations n (beforeRebootAnnotations k) \<longrightarrow> Annotations n \<noteq> None)
    \<longrightarrow> fst (checkBeforeReboot k s) = None
       \<and> list_all2 (\<lambda>n n'.
            (Requirement_Matches beforeRebootReq (Labels n)
               \<and> hasAllAnnotations n (beforeRebootAnnotations k)
             \<longrightarrow> checked_off LabelBeforeReboot (beforeRebootAnnotations k) True_str n n')
          \<and> (\<not> (Requirement_Matches beforeRebootReq (Labels n)
                  \<and> hasAllAnnotations n (beforeRebootAnnotations k))
             \<longrightarrow> n' = n))
          s (snd (checkBeforeReboot k s)))
   \<and> (distinct (map Name s)
      \<and> (\<forall>n \<in> set s. Requirement_Matches afterRebootReq (Labels n)
              \<and> hasAllAnnotations n (afterRebootAnnotations k) \<longrightarrow> Annotations n \<noteq> None)
    \<longrightarrow> fst (checkAfterReboot k s) = None
       \<and> list_all2 (\<lambda>n n'.
            (Requirement_Matches afterRebootReq (Labels n)
               \<and> hasAllAnnotations n (afterRebootAnnotations k)
             \<longrightarrow> checked_off LabelAfterReboot (afterRebootAnnotations k) False_str n n')
          \<and> (\<not> (Requirement_Matches afterRebootReq (Labels n)
                  \<and> hasAllAnnotations n (afterRebootAnnotations k))
             \<longrightarrow> n' = n))
          s (snd (checkAfterReboot k s)))"
proof (intro conjI impI)
  let ?optD = "\<lparr>req = beforeRebootReq, annotations = beforeRebootAnnotations k,
                  label = LabelBeforeReboot, okToReboot = True_str\<rparr>"
  let ?optB = "\<lparr>req = afterRebootReq, annotations = afterRebootAnnotations k,
                  label = LabelAfterReboot, okToReboot = False_str\<rparr>"
  {
    assume h: "distinct (map Name s)
      \<and> (\<forall>n \<in> set s. Requirement_Matches beforeRebootReq (Labels n)
              \<and> hasAllAnnotations n (beforeRebootAnnotations k) \<longrightarrow> Annotations n \<noteq> None)"
    from h have d: "distinct (map Name s)" by blast
    from h have nn: "\<forall>n \<in> set s. Requirement_Matches (req ?optD) (Labels n)
                   \<and> hasAllAnnotations n (annotations ?optD) \<longrightarrow> Annotations n \<noteq> None"
      by simp
    note r = checkReboot_effect_gen[OF d nn]
    from r show "fst (checkBeforeReboot k s) = None"
      by (simp add: checkBeforeReboot_def)
    from r show "list_all2 (\<lambda>n n'.
            (Requirement_Matches beforeRebootReq (Labels n)
               \<and> hasAllAnnotations n (beforeRebootAnnotations k)
             \<longrightarrow> checked_off LabelBeforeReboot (beforeRebootAnnotations k) True_str n n')
          \<and> (\<not> (Requirement_Matches beforeRebootReq (Labels n)
                  \<and> hasAllAnnotations n (beforeRebootAnnotations k))
             \<longrightarrow> n' = n))
          s (snd (checkBeforeReboot k s))"
      by (simp add: checkBeforeReboot_def)
  }
  {
    assume h: "distinct (map Name s)
      \<and> (\<forall>n \<in> set s. Requirement_Matches afterRebootReq (Labels n)
              \<and> hasAllAnnotations n (afterRebootAnnotations k) \<longrightarrow> Annotations n \<noteq> None)"
    from h have d: "distinct (map Name s)" by blast
    from h have nn: "\<forall>n \<in> set s. Requirement_Matches (req ?optB) (Labels n)
                   \<and> hasAllAnnotations n (annotations ?optB) \<longrightarrow> Annotations n \<noteq> None"
      by simp
    note r = checkReboot_effect_gen[OF d nn]
    from r show "fst (checkAfterReboot k s) = None"
      by (simp add: checkAfterReboot_def)
    from r show "list_all2 (\<lambda>n n'.
            (Requirement_Matches afterRebootReq (Labels n)
               \<and> hasAllAnnotations n (afterRebootAnnotations k)
             \<longrightarrow> checked_off LabelAfterReboot (afterRebootAnnotations k) False_str n n')
          \<and> (\<not> (Requirement_Matches afterRebootReq (Labels n)
                  \<and> hasAllAnnotations n (afterRebootAnnotations k))
             \<longrightarrow> n' = n))
          s (snd (checkAfterReboot k s))"
      by (simp add: checkAfterReboot_def)
  }
qed

theorem checkReboot_effect_witness:
  "distinct (map Name [readyToRebootNode, scheduledForRebootNode, finishedRebootingNode])
   \<and> checkBeforeReboot (testKontroller\<lparr>beforeRebootAnnotations := [testBeforeRebootAnnotation]\<rparr>)
        [readyToRebootNode, scheduledForRebootNode, finishedRebootingNode]
      = (None,
         [readyToRebootNode\<lparr>Labels := Some Map.empty,
             Annotations := Some [AnnotationRebootNeeded \<mapsto> True_str,
                                  AnnotationOkToReboot \<mapsto> True_str,
                                  AnnotationRebootInProgress \<mapsto> False_str]\<rparr>,
          scheduledForRebootNode, finishedRebootingNode])
   \<and> checkAfterReboot
        (testKontroller\<lparr>afterRebootAnnotations := [testAfterRebootAnnotation, testAnotherAfterRebootAnnotation]\<rparr>)
        [readyToRebootNode, scheduledForRebootNode, finishedRebootingNode]
      = (None,
         [readyToRebootNode, scheduledForRebootNode,
          finishedRebootingNode\<lparr>Labels := Some Map.empty,
             Annotations := Some [AnnotationOkToReboot \<mapsto> False_str,
                                  AnnotationRebootInProgress \<mapsto> False_str]\<rparr>])"
proof -
  let ?kD = "testKontroller\<lparr>beforeRebootAnnotations := [testBeforeRebootAnnotation]\<rparr>"
  let ?kB = "testKontroller\<lparr>afterRebootAnnotations := [testAfterRebootAnnotation, testAnotherAfterRebootAnnotation]\<rparr>"
  let ?s = "[readyToRebootNode, scheduledForRebootNode, finishedRebootingNode]"
  have d: "distinct (map Name ?s)" by (simp add: node_defs)
  have nD: "\<forall>n \<in> set ?s. Requirement_Matches beforeRebootReq (Labels n)
              \<and> hasAllAnnotations n (beforeRebootAnnotations ?kD) \<longrightarrow> Annotations n \<noteq> None"
    by (simp add: node_defs)
  have nB: "\<forall>n \<in> set ?s. Requirement_Matches afterRebootReq (Labels n)
              \<and> hasAllAnnotations n (afterRebootAnnotations ?kB) \<longrightarrow> Annotations n \<noteq> None"
    by (simp add: node_defs)
  have fD: "fst (checkBeforeReboot ?kD ?s) = None"
    using checkReboot_effect[of ?s ?kD] d nD by blast
  have fB: "fst (checkAfterReboot ?kB ?s) = None"
    using checkReboot_effect[of ?s ?kB] d nB by blast
  have sD: "snd (checkBeforeReboot ?kD ?s)
      = [readyToRebootNode\<lparr>Labels := Some Map.empty,
             Annotations := Some [AnnotationRebootNeeded \<mapsto> True_str,
                                  AnnotationOkToReboot \<mapsto> True_str,
                                  AnnotationRebootInProgress \<mapsto> False_str]\<rparr>,
          scheduledForRebootNode, finishedRebootingNode]"
    by (simp add: phase_defs node_defs sel_defs) (auto simp: fun_eq_iff)
  have sB: "snd (checkAfterReboot ?kB ?s)
      = [readyToRebootNode, scheduledForRebootNode,
          finishedRebootingNode\<lparr>Labels := Some Map.empty,
             Annotations := Some [AnnotationOkToReboot \<mapsto> False_str,
                                  AnnotationRebootInProgress \<mapsto> False_str]\<rparr>]"
    by (simp add: phase_defs node_defs sel_defs) (auto simp: fun_eq_iff)
  show ?thesis using d fD fB sD sB by (simp add: prod_eq_iff)
qed

section \<open>C9: idle nodes\<close>

lemma leaves_refl: "leaves N n n"
  by (simp add: leaves_def)

lemma leaves_trans: "leaves N a b \<Longrightarrow> leaves N b c \<Longrightarrow> leaves N a c"
  by (auto simp: leaves_def)

lemma leaves_names: "list_all2 (leaves N) t t' \<Longrightarrow> map Name t' = map Name t"
  by (induction t t' rule: list_all2_induct) (simp_all add: leaves_def)

lemma leaves_member: "list_all2 (leaves N) t t' \<Longrightarrow> N \<in> set t \<Longrightarrow> N \<in> set t'"
  by (induction t t' rule: list_all2_induct) (auto simp: leaves_def)

text \<open>A loop over the names of selected nodes leaves a node that is not selected.\<close>

lemma update_all_leaves:
  assumes d: "distinct (map Name t)" and N: "N \<in> set t"
    and name: "\<And>n n'. f n = Inr n' \<Longrightarrow> Name n' = Name n"
    and nms: "set nms \<subseteq> Name ` set (filter P t)"
    and notP: "\<not> P N"
  shows "list_all2 (leaves N) t (snd (update_all f nms t))"
proof (rule update_all_rel)
  fix n n' assume n: "Name n \<in> set nms" "f n = Inr n'"
  have "n \<noteq> N"
  proof
    assume "n = N"
    then have "Name N \<in> Name ` set (filter P t)" using n(1) nms by blast
    then show False using Name_filter_iff[OF d N, of P] notP by simp
  qed
  then show "leaves N n n'" using name[OF n(2)] by (simp add: leaves_def)
qed (auto intro: leaves_refl leaves_trans)

lemma cleanupState_leaves:
  assumes "map_index (Labels N) LabelBeforeReboot = None"
  shows "list_all2 (leaves N) t (snd (cleanupState k t))"
  unfolding cleanupState_def cleanupState_loop_update_all
proof (rule update_all_rel)
  fix n n' assume "cleanupState_mutate k n = Inr n'"
  then show "leaves N n n'"
    using assms by (auto simp: leaves_def cleanupState_mutate_def split: if_splits)
qed (auto intro: leaves_refl leaves_trans)

lemma checkReboot_leaves:
  assumes d: "distinct (map Name t)" and N: "N \<in> set t"
    and notP: "\<not> (Requirement_Matches (req opt) (Labels N) \<and> hasAllAnnotations N (annotations opt))"
  shows "list_all2 (leaves N) t (snd (checkReboot opt t))"
  unfolding checkReboot_def checkReboot_loop_update_all FilterNodesByRequirement_def filter_filter
proof (rule update_all_leaves[OF d N, where
      P = "\<lambda>n. Requirement_Matches (req opt) (Labels n) \<and> hasAllAnnotations n (annotations opt)"])
  show "\<not> (Requirement_Matches (req opt) (Labels N) \<and> hasAllAnnotations N (annotations opt))"
    by (rule notP)
qed (auto dest: checkReboot_mutate_Name)

lemma markAfterReboot_leaves:
  assumes d: "distinct (map Name t)" and N: "N \<in> set t"
    and notP: "\<not> justRebooted N"
  shows "list_all2 (leaves N) t (snd (markAfterReboot k t))"
  unfolding markAfterReboot_def Let_def mark_loop_update_all FilterNodesByRequirement_def
    FilterNodesByAnnotation_def filter_filter
proof (rule update_all_leaves[OF d N, where P = justRebooted])
  show "\<not> justRebooted N" by (rule notP)
qed (auto simp: justRebooted_def dest: mark_mutate_Name)

lemma markBeforeReboot_leaves:
  assumes d: "distinct (map Name t)" and N: "N \<in> set t"
    and notP: "\<not> Selector_Matches rebootableSelector (Annotations N)"
  shows "list_all2 (leaves N) t (snd (markBeforeReboot k t1 t2 t))"
proof -
  have "list_all2 (leaves N) t
          (snd (mark_loop LabelBeforeReboot (beforeRebootAnnotations k)
                  (take r (nodesRequiringReboot t)) t))" for r
    unfolding mark_loop_update_all
  proof (rule update_all_leaves[OF d N,
        where P = "\<lambda>n. Selector_Matches rebootableSelector (Annotations n)"])
    show "set (map Name (take r (nodesRequiringReboot t)))
          \<subseteq> Name ` set (filter (\<lambda>n. Selector_Matches rebootableSelector (Annotations n)) t)"
      by (auto simp: nodesRequiringReboot_def FilterNodesByRequirement_def
          FilterNodesByAnnotation_def dest!: in_set_takeD)
    show "\<not> Selector_Matches rebootableSelector (Annotations N)" by (rule notP)
  qed (auto dest: mark_mutate_Name)
  then show ?thesis
    by (simp add: markBeforeReboot_def markBeforeReboot_admit_def rebootableNodes_def Let_def
        list_all2_refl leaves_refl)
qed

text \<open>
  Claim C9, as stated, fails: \<open>reboot-needed=false\<close> also holds of a node that has just
  rebooted, and phase C labels such a node. The just-rebooted node of the test file is
  idle in the sense of the claim and carries label \<open>after-reboot=true\<close> after one tick.
\<close>

theorem process_labels_idle_just_rebooted_node:
  "idle justRebootedNode
   \<and> map_index (Labels justRebootedNode) LabelAfterReboot = None
   \<and> map_index (Labels (hd (snd (process testKontroller 0 0 [justRebootedNode])))) LabelAfterReboot
       = Some True_str"
  by (simp add: idle_def phase_defs node_defs sel_defs)

text \<open>
  Claim C9, amended. In a store of distinctly named nodes, a node that is idle
  (\<open>reboot-needed=false\<close>), carries no \<open>before-reboot\<close> label, and is neither just
  rebooted (\<open>ok-to-reboot=true\<close>, \<open>reboot-in-progress=false\<close>, label \<open>after-reboot\<close> not
  \<open>true\<close>) nor a finished one (label \<open>after-reboot=true\<close> with every configured
  after-reboot annotation \<open>true\<close>) is the same node after the tick, whatever the tick
  does to the others and whether or not it fails; every node keeps its name.
\<close>

theorem process_leaves_idle_node:
  assumes "distinct (map Name s)" "N \<in> set s"
    and "idle N"
    and "map_index (Labels N) LabelBeforeReboot = None"
    and "\<not> justRebooted N"
    and "\<not> finishedRebooting k N"
  shows "list_all2 (leaves N) s (snd (process k t1 t2 s))"
proof (rule process_rel[where Inv = "\<lambda>t. distinct (map Name t) \<and> N \<in> set t"])
  show "distinct (map Name s) \<and> N \<in> set s" using assms by simp
next
  fix t t' assume "distinct (map Name t) \<and> N \<in> set t" "list_all2 (leaves N) t t'"
  then show "distinct (map Name t') \<and> N \<in> set t'"
    using leaves_names leaves_member by metis
next
  fix t assume "distinct (map Name t) \<and> N \<in> set t"
  then have d: "distinct (map Name t)" and N: "N \<in> set t" by simp_all
  show "list_all2 (leaves N) t (snd (cleanupState k t))"
    using assms(4) by (rule cleanupState_leaves)
  show "list_all2 (leaves N) t (snd (checkAfterReboot k t))"
    unfolding checkAfterReboot_def
    using assms(6) by (intro checkReboot_leaves[OF d N]) (simp add: finishedRebooting_def)
  show "list_all2 (leaves N) t (snd (markAfterReboot k t))"
    using assms(5) by (rule markAfterReboot_leaves[OF d N])
  show "list_all2 (leaves N) t (snd (checkBeforeReboot k t))"
    unfolding checkBeforeReboot_def
    using assms(4) by (intro checkReboot_leaves[OF d N]) (simp add: beforeRebootReq_def)
  show "list_all2 (leaves N) t (snd (markBeforeReboot k t1 t2 t))"
    using assms(3)
    by (intro markBeforeReboot_leaves[OF d N])
       (simp add: idle_def rebootableSelector_def Selector_Matches_def)
qed (rule leaves_trans)

theorem process_leaves_idle_node_witness:
  "distinct (map Name [rebootableNode, idleNode])
   \<and> idle idleNode
   \<and> list_all2 (leaves idleNode) [rebootableNode, idleNode]
       (snd (process testKontroller 0 0 [rebootableNode, idleNode]))
   \<and> snd (process testKontroller 0 0 [rebootableNode, idleNode]) ! 1 = idleNode
   \<and> map_index (Labels (hd (snd (process testKontroller 0 0 [rebootableNode, idleNode]))))
        LabelBeforeReboot = Some True_str"
proof -
  let ?s = "[rebootableNode, idleNode]"
  have d: "distinct (map Name ?s)" by (simp add: node_defs)
  have m: "idleNode \<in> set ?s" by simp
  have i: "idle idleNode" by (simp add: idle_def node_defs sel_defs)
  have l: "map_index (Labels idleNode) LabelBeforeReboot = None" by (simp add: node_defs sel_defs)
  have j: "\<not> justRebooted idleNode" by (simp add: justRebooted_def node_defs sel_defs)
  have f: "\<not> finishedRebooting testKontroller idleNode"
    by (simp add: finishedRebooting_def node_defs sel_defs)
  note r = process_leaves_idle_node[OF d m i l j f, of 0 0]
  moreover from r have "snd (process testKontroller 0 0 ?s) ! 1 = idleNode"
    by (auto simp: list_all2_conv_all_nth leaves_def)
  moreover have "map_index (Labels (hd (snd (process testKontroller 0 0 ?s)))) LabelBeforeReboot
      = Some True_str"
    by (simp add: phase_defs node_defs sel_defs)
  ultimately show ?thesis using d i by simp
qed

section \<open>C8: a second tick\<close>

subsection \<open>Loops over the names of selected nodes\<close>

lemma same_names:
  "list_all2 (\<lambda>a b. Name b = Name a) t t' \<Longrightarrow> map Name t' = map Name t"
  by (induction t t' rule: list_all2_induct) simp_all

lemma update_all_names:
  assumes "\<And>n n'. f n = Inr n' \<Longrightarrow> Name n' = Name n"
  shows "map Name (snd (update_all f nms t)) = map Name t"
proof -
  have "list_all2 (\<lambda>a b. Name b = Name a) t (snd (update_all f nms t))"
    by (rule update_all_rel) (auto dest: assms)
  then show ?thesis by (rule same_names)
qed

text \<open>
  The loop over a prefix of the selected nodes, in terms of the selection: the updated
  nodes were selected, and the closure succeeded on them.
\<close>

lemma update_all_prefix:
  assumes d: "distinct (map Name t)"
    and name: "\<And>n n'. f n = Inr n' \<Longrightarrow> Name n' = Name n"
  shows "\<exists>j. prefix_char f r P t j"
proof -
  let ?xs = "take r (filter P t)"
  let ?nms = "map Name ?xs"
  have "distinct (map Name (filter P t))" using d by (rule distinct_map_filter)
  then have "distinct (take r (map Name (filter P t)))" by (rule distinct_take)
  then have dn: "distinct ?nms" by (simp add: take_map)
  have sub: "set ?nms \<subseteq> Name ` set t"
    by (auto dest: in_set_takeD)
  obtain j where "loop_char f ?nms t j"
    using update_all_char[OF d dn sub name] by blast
  then have j: "j \<le> length ?nms"
      "snd (update_all f ?nms t) = map (\<lambda>n. if Name n \<in> set (take j ?nms) then applied f n else n) t"
      "\<And>n. n \<in> set t \<Longrightarrow> Name n \<in> set (take j ?nms) \<Longrightarrow> f n = Inr (applied f n)"
      "fst (update_all f ?nms t) = None \<Longrightarrow> j = length ?nms"
      "\<And>e. fst (update_all f ?nms t) = Some e
                \<Longrightarrow> j < length ?nms \<and> (\<exists>n \<in> set t. Name n = ?nms ! j \<and> f n = Inl e)"
    unfolding loop_char_def by blast+
  have "j \<le> r" using j(1) by simp
  then have "take j ?xs = take j (filter P t)" by (simp add: min_absorb1)
  then have "take j ?nms = map Name (take j (filter P t))" by (simp add: take_map)
  then have tk: "set (take j ?nms) = Name ` set (take j (filter P t))" by simp
  have c1: "j \<le> length ?xs" using j(1) by simp
  have c2: "snd (update_all f ?nms t)
         = map (\<lambda>n. if Name n \<in> Name ` set (take j (filter P t)) then applied f n else n) t"
    using j(2) tk by simp
  have c3: "\<forall>n \<in> set t. Name n \<in> Name ` set (take j (filter P t))
             \<longrightarrow> P n \<and> f n = Inr (applied f n)"
  proof (intro ballI impI conjI)
    fix n assume n: "n \<in> set t" "Name n \<in> Name ` set (take j (filter P t))"
    have "set (take j (filter P t)) \<subseteq> set (filter P t)" by (rule set_take_subset)
    then have "Name n \<in> Name ` set (filter P t)" using n(2) by blast
    then show "P n" using Name_filter_iff[OF d n(1), of P] by simp
    show "f n = Inr (applied f n)" using j(3)[OF n(1)] n(2) tk by simp
  qed
  have c4: "fst (update_all f ?nms t) = None \<longrightarrow> j = length ?xs"
    using j(4) by simp
  have c5: "\<forall>e. fst (update_all f ?nms t) = Some e \<longrightarrow> j < length ?xs \<and> f (?xs ! j) = Inl e"
  proof (intro allI impI)
    fix e assume "fst (update_all f ?nms t) = Some e"
    from j(5)[OF this] obtain n where jl: "j < length ?nms"
      and n: "n \<in> set t" "Name n = ?nms ! j" "f n = Inl e" by blast
    have jx: "j < length ?xs" using jl by simp
    then have "?xs ! j \<in> set ?xs" by (rule nth_mem)
    then have "?xs ! j \<in> set (filter P t)" by (rule in_set_takeD)
    then have m: "?xs ! j \<in> set t" by simp
    have "Name (?xs ! j) = Name n" using jx n(2) by simp
    then have "?xs ! j = n" using d m n(1) by (simp add: distinct_map inj_on_def)
    then show "j < length ?xs \<and> f (?xs ! j) = Inl e" using jx n(3) by simp
  qed
  have "prefix_char f r P t j"
    unfolding prefix_char_def using c1 c2 c3 c4 c5 by blast
  then show ?thesis ..
qed

text \<open>An invariant of the nodes that the closure keeps on selected nodes holds after the loop.\<close>

lemma update_all_invariant:
  assumes d: "distinct (map Name t)"
    and name: "\<And>n n'. f n = Inr n' \<Longrightarrow> Name n' = Name n"
    and inv: "\<And>n. n \<in> set t \<Longrightarrow> I n"
    and step: "\<And>n n'. I n \<Longrightarrow> P n \<Longrightarrow> f n = Inr n' \<Longrightarrow> I n'"
  shows "\<forall>n \<in> set (snd (update_all f (map Name (take r (filter P t))) t)). I n"
proof -
  obtain j where "prefix_char f r P t j"
    using update_all_prefix[OF d name] by blast
  then have j: "snd (update_all f (map Name (take r (filter P t))) t)
         = map (\<lambda>n. if Name n \<in> Name ` set (take j (filter P t)) then applied f n else n) t"
    and sel: "\<And>n. n \<in> set t \<Longrightarrow> Name n \<in> Name ` set (take j (filter P t))
            \<Longrightarrow> P n \<and> f n = Inr (applied f n)"
    unfolding prefix_char_def by blast+
  show ?thesis
    unfolding j
  proof
    fix m assume "m \<in> set (map (\<lambda>n. if Name n \<in> Name ` set (take j (filter P t)) then applied f n else n) t)"
    then obtain n where n: "n \<in> set t"
      "m = (if Name n \<in> Name ` set (take j (filter P t)) then applied f n else n)" by auto
    show "I m"
    proof (cases "Name n \<in> Name ` set (take j (filter P t))")
      case True
      from sel[OF n(1) True] have "P n" "f n = Inr (applied f n)" by simp_all
      with step[OF inv[OF n(1)]] have "I (applied f n)" by blast
      then show ?thesis using n(2) True by simp
    next
      case False
      then show ?thesis using n inv by simp
    qed
  qed
qed

lemma filter_not_taken:
  fixes xs :: "Node list"
  assumes "distinct (map Name xs)"
  shows "filter (\<lambda>n. Name n \<notin> Name ` set (take j xs)) xs = drop j xs"
proof -
  define Q where "Q = (\<lambda>n :: Node. Name n \<notin> Name ` set (take j xs))"
  have a: "filter Q (take j xs) = []"
    by (auto simp: filter_empty_conv Q_def)
  have "distinct (map Name (take j xs @ drop j xs))" using assms by simp
  then have "Name ` set (take j xs) \<inter> Name ` set (drop j xs) = {}"
    unfolding map_append distinct_append by simp
  then have b: "filter Q (drop j xs) = drop j xs"
    by (intro filter_True) (auto simp: Q_def)
  have "filter Q xs = filter Q (take j xs @ drop j xs)" by simp
  also have "\<dots> = drop j xs" unfolding filter_append a b by simp
  finally show ?thesis by (simp add: Q_def)
qed

subsection \<open>The selectors, key by key\<close>

lemma rebootableSelector_iff:
  "Selector_Matches rebootableSelector a \<longleftrightarrow>
     fields_Get a AnnotationRebootNeeded = True_str
     \<and> fields_Get a AnnotationRebootPaused \<noteq> True_str
     \<and> fields_Get a AnnotationOkToReboot \<noteq> True_str
     \<and> fields_Get a AnnotationRebootInProgress \<noteq> True_str"
  by (simp add: Selector_Matches_def rebootableSelector_def)

lemma justRebootedSelector_iff:
  "Selector_Matches justRebootedSelector a \<longleftrightarrow>
     fields_Get a AnnotationOkToReboot = True_str
     \<and> fields_Get a AnnotationRebootNeeded = False_str
     \<and> fields_Get a AnnotationRebootInProgress = False_str"
  by (simp add: Selector_Matches_def justRebootedSelector_def)

lemma stillRebootingSelector_iff:
  "Selector_Matches stillRebootingSelector a \<longleftrightarrow>
     fields_Get a AnnotationOkToReboot = True_str
     \<and> fields_Get a AnnotationRebootNeeded = True_str"
  by (simp add: Selector_Matches_def stillRebootingSelector_def)

lemma beforeRebootReq_iff:
  "Requirement_Matches beforeRebootReq l \<longleftrightarrow> map_index l LabelBeforeReboot = Some True_str"
  by (auto simp: beforeRebootReq_def split: option.splits)

lemma afterRebootReq_iff:
  "Requirement_Matches afterRebootReq l \<longleftrightarrow> map_index l LabelAfterReboot = Some True_str"
  by (auto simp: afterRebootReq_def split: option.splits)

lemma notBeforeRebootReq_iff:
  "Requirement_Matches notBeforeRebootReq l \<longleftrightarrow> map_index l LabelBeforeReboot \<noteq> Some True_str"
  by (auto simp: notBeforeRebootReq_def split: option.splits)

lemma notAfterRebootSelector_iff:
  "Requirement_Matches notAfterRebootSelector l \<longleftrightarrow> map_index l LabelAfterReboot \<noteq> Some True_str"
  by (auto simp: notAfterRebootSelector_def split: option.splits)

lemmas req_iffs = beforeRebootReq_iff afterRebootReq_iff notBeforeRebootReq_iff
  notAfterRebootSelector_iff rebootableSelector_iff justRebootedSelector_iff
  stillRebootingSelector_iff

lemma fields_Get_deleteAll:
  "fields_Get (deleteAll ks m) a = (if a \<in> set ks then [] else fields_Get m a)"
  by (simp add: fields_Get_def map_index_deleteAll)

lemma map_assign_Some:
  "map_assign m key v = Inr m' \<Longrightarrow> \<exists>f. m = Some f \<and> m' = Some (f(key \<mapsto> v))"
  by (cases m) (auto simp: map_assign_def)

text \<open>What the two closures that can fail leave of a node when they do not fail.\<close>

lemma checkReboot_mutate_Inr:
  assumes "checkReboot_mutate opt n = Inr n'"
  shows "Name n' = Name n"
    and "map_index (Labels n') l = (if l = label opt then None else map_index (Labels n) l)"
    and "map_index (Annotations n') a
         = (if a = AnnotationOkToReboot then Some (okToReboot opt)
            else if a \<in> set (annotations opt) then None else map_index (Annotations n) a)"
proof -
  from assms obtain m where m: "map_assign (deleteAll (annotations opt) (Annotations n))
             AnnotationOkToReboot (okToReboot opt) = Inr m"
    and n': "n' = n\<lparr>Labels := map_delete (Labels n) (label opt), Annotations := m\<rparr>"
    by (auto simp: checkReboot_mutate_def split: sum.splits)
  show "Name n' = Name n" using n' by simp
  show "map_index (Labels n') l = (if l = label opt then None else map_index (Labels n) l)"
    using n' by (simp add: map_index_map_delete)
  show "map_index (Annotations n') a
         = (if a = AnnotationOkToReboot then Some (okToReboot opt)
            else if a \<in> set (annotations opt) then None else map_index (Annotations n) a)"
    using n' map_assign_Inr[OF m, of a] by (simp add: map_index_deleteAll)
qed

lemma mark_mutate_Inr:
  assumes "mark_mutate lbl as n = Inr n'"
  shows "Name n' = Name n"
    and "map_index (Labels n') l = (if l = lbl then Some True_str else map_index (Labels n) l)"
    and "map_index (Annotations n') a = (if a \<in> set as then None else map_index (Annotations n) a)"
proof -
  from assms obtain m where m: "map_assign (Labels n) lbl True_str = Inr m"
    and n': "n' = n\<lparr>Labels := m, Annotations := deleteAll as (Annotations n)\<rparr>"
    by (auto simp: mark_mutate_def split: sum.splits)
  show "Name n' = Name n" using n' by simp
  show "map_index (Labels n') l = (if l = lbl then Some True_str else map_index (Labels n) l)"
    using n' map_assign_Inr[OF m, of l] by simp
  show "map_index (Annotations n') a = (if a \<in> set as then None else map_index (Annotations n) a)"
    using n' by (simp add: map_index_deleteAll)
qed

lemma hasAllAnnotations_iff:
  "hasAllAnnotations n as \<longleftrightarrow> (\<forall>a \<in> set as. map_index (Annotations n) a = Some True_str)"
  by (simp add: hasAllAnnotations_def list_all_iff)

subsection \<open>What each closure does to the states\<close>

lemma checkAfter_keeps_scheduledWantsReboot:
  assumes "checkReboot_mutate \<lparr>req = afterRebootReq, annotations = afterRebootAnnotations k,
                  label = LabelAfterReboot, okToReboot = False_str\<rparr> n = Inr n'"
    and "AnnotationRebootNeeded \<notin> set (afterRebootAnnotations k)"
    and "scheduledWantsReboot n"
  shows "scheduledWantsReboot n'"
  using assms(2,3) checkReboot_mutate_Inr(2,3)[OF assms(1)]
  by (auto simp: scheduledWantsReboot_def rebootableSelector_iff fields_Get_def)

lemma markAfter_keeps_scheduledWantsReboot:
  assumes "mark_mutate LabelAfterReboot (afterRebootAnnotations k) n = Inr n'"
    and "AnnotationRebootNeeded \<notin> set (afterRebootAnnotations k)"
    and "scheduledWantsReboot n"
  shows "scheduledWantsReboot n'"
  using assms(2,3) mark_mutate_Inr(2,3)[OF assms(1)]
  by (auto simp: scheduledWantsReboot_def rebootableSelector_iff fields_Get_def)

lemma checkBefore_gives_scheduledWantsReboot:
  assumes "checkReboot_mutate \<lparr>req = beforeRebootReq, annotations = beforeRebootAnnotations k,
                  label = LabelBeforeReboot, okToReboot = True_str\<rparr> n = Inr n'"
  shows "scheduledWantsReboot n'"
  using checkReboot_mutate_Inr(2)[OF assms]
  by (simp add: scheduledWantsReboot_def)

lemma markBefore_gives_scheduledWantsReboot:
  assumes "mark_mutate LabelBeforeReboot (beforeRebootAnnotations k) n = Inr n'"
    and "AnnotationRebootNeeded \<notin> set (beforeRebootAnnotations k)"
    and "rebootable n"
  shows "scheduledWantsReboot n'"
  using assms(2,3) mark_mutate_Inr(3)[OF assms(1)]
  by (auto simp: scheduledWantsReboot_def rebootable_def rebootableSelector_iff fields_Get_def)

lemma checkAfter_unfinishes:
  assumes "checkReboot_mutate \<lparr>req = afterRebootReq, annotations = afterRebootAnnotations k,
                  label = LabelAfterReboot, okToReboot = False_str\<rparr> n = Inr n'"
  shows "\<not> finishedRebooting k n'"
  using checkReboot_mutate_Inr(2)[OF assms]
  by (simp add: finishedRebooting_def afterRebootReq_iff)

lemma markAfter_not_finished:
  assumes "mark_mutate LabelAfterReboot (afterRebootAnnotations k) n = Inr n'"
    and "afterRebootAnnotations k \<noteq> []"
  shows "\<not> finishedRebooting k n'"
proof -
  from assms(2) obtain a where a: "a \<in> set (afterRebootAnnotations k)"
    by (cases "afterRebootAnnotations k") auto
  then have "map_index (Annotations n') a = None"
    using mark_mutate_Inr(3)[OF assms(1)] by simp
  then have "\<not> hasAllAnnotations n' (afterRebootAnnotations k)"
    unfolding hasAllAnnotations_iff using a by (intro notI) (drule bspec, assumption, simp)
  then show ?thesis by (simp add: finishedRebooting_def)
qed

lemma checkBefore_keeps_unfinished:
  assumes "checkReboot_mutate \<lparr>req = beforeRebootReq, annotations = beforeRebootAnnotations k,
                  label = LabelBeforeReboot, okToReboot = True_str\<rparr> n = Inr n'"
    and "AnnotationOkToReboot \<notin> set (afterRebootAnnotations k)"
    and "\<not> finishedRebooting k n"
  shows "\<not> finishedRebooting k n'"
proof
  assume f: "finishedRebooting k n'"
  note r = checkReboot_mutate_Inr(2,3)[OF assms(1)]
  have "map_index (Labels n) LabelAfterReboot = Some True_str"
    using f r(1)[of LabelAfterReboot] by (simp add: finishedRebooting_def afterRebootReq_iff)
  moreover have "map_index (Annotations n) a = Some True_str"
    if "a \<in> set (afterRebootAnnotations k)" for a
  proof -
    have "map_index (Annotations n') a = Some True_str"
      using f that by (simp add: finishedRebooting_def hasAllAnnotations_iff)
    moreover have "a \<noteq> AnnotationOkToReboot" using that assms(2) by auto
    ultimately show ?thesis using r(2)[of a] by (simp split: if_splits)
  qed
  ultimately have "finishedRebooting k n"
    by (simp add: finishedRebooting_def afterRebootReq_iff hasAllAnnotations_iff)
  then show False using assms(3) by simp
qed

lemma markBefore_keeps_unfinished:
  assumes "mark_mutate LabelBeforeReboot (beforeRebootAnnotations k) n = Inr n'"
    and "\<not> finishedRebooting k n"
  shows "\<not> finishedRebooting k n'"
proof
  assume f: "finishedRebooting k n'"
  note r = mark_mutate_Inr(2,3)[OF assms(1)]
  have "map_index (Labels n) LabelAfterReboot = Some True_str"
    using f r(1)[of LabelAfterReboot] by (simp add: finishedRebooting_def afterRebootReq_iff)
  moreover have "map_index (Annotations n) a = Some True_str"
    if "a \<in> set (afterRebootAnnotations k)" for a
  proof -
    have "map_index (Annotations n') a = Some True_str"
      using f that by (simp add: finishedRebooting_def hasAllAnnotations_iff)
    then show ?thesis using r(2)[of a] by (simp split: if_splits)
  qed
  ultimately have "finishedRebooting k n"
    by (simp add: finishedRebooting_def afterRebootReq_iff hasAllAnnotations_iff)
  then show False using assms(2) by simp
qed

lemma markAfter_not_justRebooted:
  assumes "mark_mutate LabelAfterReboot as n = Inr n'"
  shows "\<not> justRebooted n'"
  using mark_mutate_Inr(2)[OF assms, of LabelAfterReboot]
  by (simp add: justRebooted_def notAfterRebootSelector_iff)

lemma checkBefore_not_justRebooted:
  assumes "checkReboot_mutate \<lparr>req = beforeRebootReq, annotations = beforeRebootAnnotations k,
                  label = LabelBeforeReboot, okToReboot = True_str\<rparr> n = Inr n'"
    and "scheduledWantsReboot n" "readyToReboot k n"
  shows "\<not> justRebooted n'"
proof -
  have "fields_Get (Annotations n) AnnotationRebootNeeded = True_str"
    using assms(2,3)
    by (auto simp: scheduledWantsReboot_def readyToReboot_def beforeRebootReq_iff rebootableSelector_iff)
  then have "fields_Get (Annotations n') AnnotationRebootNeeded \<noteq> False_str"
    using checkReboot_mutate_Inr(3)[OF assms(1), of AnnotationRebootNeeded]
    by (auto simp: fields_Get_def split: if_splits)
  then show ?thesis by (simp add: justRebooted_def justRebootedSelector_iff)
qed

lemma markBefore_not_justRebooted:
  assumes "mark_mutate LabelBeforeReboot as n = Inr n'"
    and "rebootable n"
  shows "\<not> justRebooted n'"
proof -
  have "fields_Get (Annotations n) AnnotationRebootNeeded = True_str"
    using assms(2) by (simp add: rebootable_def rebootableSelector_iff)
  then have "fields_Get (Annotations n') AnnotationRebootNeeded \<noteq> False_str"
    using mark_mutate_Inr(3)[OF assms(1), of AnnotationRebootNeeded]
    by (auto simp: fields_Get_def split: if_splits)
  then show ?thesis by (simp add: justRebooted_def justRebootedSelector_iff)
qed

lemma checkBefore_unreadies:
  assumes "checkReboot_mutate \<lparr>req = beforeRebootReq, annotations = beforeRebootAnnotations k,
                  label = LabelBeforeReboot, okToReboot = True_str\<rparr> n = Inr n'"
  shows "\<not> readyToReboot k n'"
  using checkReboot_mutate_Inr(2)[OF assms]
  by (simp add: readyToReboot_def beforeRebootReq_iff)

lemma markBefore_not_ready:
  assumes "mark_mutate LabelBeforeReboot (beforeRebootAnnotations k) n = Inr n'"
    and "beforeRebootAnnotations k \<noteq> []"
  shows "\<not> readyToReboot k n'"
proof -
  from assms(2) obtain a where a: "a \<in> set (beforeRebootAnnotations k)"
    by (cases "beforeRebootAnnotations k") auto
  then have "map_index (Annotations n') a = None"
    using mark_mutate_Inr(3)[OF assms(1)] by simp
  then have "\<not> hasAllAnnotations n' (beforeRebootAnnotations k)"
    unfolding hasAllAnnotations_iff using a by (intro notI) (drule bspec, assumption, simp)
  then show ?thesis by (simp add: readyToReboot_def)
qed

lemma markBefore_not_rebootable:
  assumes "mark_mutate LabelBeforeReboot as n = Inr n'"
  shows "\<not> rebootable n'"
  using mark_mutate_Inr(2)[OF assms, of LabelBeforeReboot]
  by (simp add: rebootable_def notBeforeRebootReq_iff)

subsection \<open>Running a marking loop again\<close>

lemma name_not_in_earlier:
  fixes ys :: "Node list"
  assumes "distinct (map Name ys)" "j < length ys"
  shows "Name (ys ! j) \<notin> Name ` set (take j ys)"
proof -
  have "distinct (map Name (take j ys @ drop j ys))" using assms(1) by simp
  then have "Name ` set (take j ys) \<inter> Name ` set (drop j ys) = {}"
    unfolding map_append distinct_append by simp
  moreover have "ys ! j \<in> set (drop j ys)"
    using assms(2) by (metis Cons_nth_drop_Suc list.set_intros(1))
  ultimately show ?thesis by blast
qed

text \<open>
  After a loop over the first \<open>r\<close> selected nodes whose closure unselects a node, the
  selected nodes are the old ones less the \<open>j\<close> updated, and the loop over the rest of
  the \<open>r\<close> ends as the first did: with nothing to do, or failing on the same node.
\<close>

lemma update_all_again:
  assumes d: "distinct (map Name t)"
    and name: "\<And>n n'. f n = Inr n' \<Longrightarrow> Name n' = Name n"
    and removes: "\<And>n n'. P n \<Longrightarrow> f n = Inr n' \<Longrightarrow> \<not> P n'"
    and pc: "prefix_char f r P t j"
  shows "filter P (snd (update_all f (map Name (take r (filter P t))) t)) = drop j (filter P t)"
    and "update_all f (map Name (drop j (take r (filter P t))))
           (snd (update_all f (map Name (take r (filter P t))) t))
         = update_all f (map Name (take r (filter P t))) t"
proof -
  let ?cands = "filter P t"
  let ?xs = "take r ?cands"
  let ?J = "Name ` set (take j ?cands)"
  let ?g = "\<lambda>n. if Name n \<in> ?J then applied f n else n"
  let ?t' = "snd (update_all f (map Name ?xs) t)"
  from pc have j: "j \<le> length ?xs"
    and t': "?t' = map ?g t"
    and sel: "\<And>n. n \<in> set t \<Longrightarrow> Name n \<in> ?J \<Longrightarrow> P n \<and> f n = Inr (applied f n)"
    and none: "fst (update_all f (map Name ?xs) t) = None \<Longrightarrow> j = length ?xs"
    and some: "\<And>e. fst (update_all f (map Name ?xs) t) = Some e
                 \<Longrightarrow> j < length ?xs \<and> f (?xs ! j) = Inl e"
    unfolding prefix_char_def by blast+
  have dc: "distinct (map Name ?cands)" using d by (rule distinct_map_filter)
  have Pg: "P (?g n) \<longleftrightarrow> P n \<and> Name n \<notin> ?J" if "n \<in> set t" for n
  proof (cases "Name n \<in> ?J")
    case True
    from sel[OF that True] have "P n" "f n = Inr (applied f n)" by simp_all
    then have "\<not> P (applied f n)" using removes by blast
    then show ?thesis using True by simp
  next
    case False
    then show ?thesis by simp
  qed
  have "filter P (map ?g t) = map ?g (filter (P \<circ> ?g) t)" by (rule filter_map)
  also have "filter (P \<circ> ?g) t = filter (\<lambda>n. P n \<and> Name n \<notin> ?J) t"
    using Pg by (intro filter_cong[OF refl]) simp
  also have "\<dots> = filter (\<lambda>n. Name n \<notin> ?J) ?cands"
    by (simp add: conj_commute)
  also have "\<dots> = drop j ?cands" using dc by (rule filter_not_taken)
  finally have "filter P (map ?g t) = map ?g (drop j ?cands)" .
  moreover have "map ?g (drop j ?cands) = drop j ?cands"
  proof (rule map_idI)
    fix n assume "n \<in> set (drop j ?cands)"
    then have "n \<in> set (filter (\<lambda>n. Name n \<notin> ?J) ?cands)"
      using filter_not_taken[OF dc, of j] by simp
    then show "?g n = n" by simp
  qed
  ultimately show first: "filter P ?t' = drop j ?cands" using t' by simp
  have names': "map Name ?t' = map Name t" using name by (rule update_all_names)
  then have d': "distinct (map Name ?t')" using d by simp
  show "update_all f (map Name (drop j ?xs)) ?t' = update_all f (map Name ?xs) t"
  proof (cases "fst (update_all f (map Name ?xs) t)")
    case None
    then have "drop j ?xs = []" using none by simp
    then show ?thesis using None by (simp add: prod_eq_iff)
  next
    case (Some e)
    from some[OF Some] have jl: "j < length ?xs" and fail: "f (?xs ! j) = Inl e" by blast+
    have xc: "?xs ! j = ?cands ! j" using jl by simp
    have jc: "j < length ?cands" using jl by simp
    have "?cands ! j \<in> set ?cands" using jc by (rule nth_mem)
    then have mt: "?cands ! j \<in> set t" by simp
    have "Name (?cands ! j) \<notin> ?J" using dc jc by (rule name_not_in_earlier)
    then have gj: "?g (?cands ! j) = ?cands ! j" by simp
    have "?g (?cands ! j) \<in> ?g ` set t" using mt by (rule imageI)
    then have "?cands ! j \<in> set (map ?g t)" unfolding gj by simp
    then have mt': "?xs ! j \<in> set ?t'" using t' xc by simp
    have dj: "drop j ?xs = ?xs ! j # drop (Suc j) ?xs"
      using Cons_nth_drop_Suc[OF jl] by (rule sym)
    have "UpdateNodeRetry (Name (?xs ! j)) f ?t' = Inl e"
      unfolding UpdateNodeRetry_distinct[OF d' mt', of f] fail by simp
    then have "update_all f (map Name (drop j ?xs)) ?t' = (Some e, ?t')"
      unfolding dj by (simp only: list.map update_all.simps sum.case)
    then show ?thesis using Some by (simp add: prod_eq_iff)
  qed
qed

text \<open>How many nodes of the store bear the names of some of its nodes.\<close>

lemma count_named:
  fixes t :: "Node list"
  assumes d: "distinct (map Name t)" and sub: "set ys \<subseteq> set t" and dy: "distinct ys"
  shows "length (filter (\<lambda>n. Name n \<in> Name ` set ys) t) = length ys"
proof -
  have dt: "distinct t" using d by (simp add: distinct_map)
  have "set (filter (\<lambda>n. Name n \<in> Name ` set ys) t) = set ys"
  proof (intro equalityI subsetI)
    fix n assume "n \<in> set (filter (\<lambda>n. Name n \<in> Name ` set ys) t)"
    then obtain m where n: "n \<in> set t" and m: "m \<in> set ys" "Name n = Name m" by auto
    from m(1) sub have "m \<in> set t" by blast
    then have "n = m" using d n m(2) by (simp add: distinct_map inj_on_def)
    then show "n \<in> set ys" using m(1) by simp
  next
    fix n assume "n \<in> set ys"
    then show "n \<in> set (filter (\<lambda>n. Name n \<in> Name ` set ys) t)" using sub by auto
  qed
  moreover have "distinct (filter (\<lambda>n. Name n \<in> Name ` set ys) t)" using dt by simp
  ultimately have "length (filter (\<lambda>n. Name n \<in> Name ` set ys) t) = card (set ys)"
    by (metis distinct_card)
  then show ?thesis using dy by (simp add: distinct_card)
qed

subsection \<open>The phases as loops over selected nodes\<close>

lemma take_length_filter: "take (length t) (filter P t) = filter P t"
  by simp

lemma cleanupState_as_loop:
  "cleanupState k t
   = update_all (cleanupState_mutate k) (map Name (take (length t) (filter (\<lambda>n. True) t))) t"
  by (simp add: cleanupState_def cleanupState_loop_update_all)

lemma checkAfterReboot_as_loop:
  "checkAfterReboot k t
   = update_all (checkReboot_mutate (afterOpts k))
       (map Name (take (length t) (filter (finishedRebooting k) t))) t"
proof -
  have "(\<lambda>n. Requirement_Matches afterRebootReq (Labels n)
              \<and> hasAllAnnotations n (afterRebootAnnotations k)) = finishedRebooting k"
    by (simp add: fun_eq_iff finishedRebooting_def)
  then show ?thesis
    by (simp add: checkAfterReboot_def checkReboot_def checkReboot_loop_update_all
        FilterNodesByRequirement_def afterOpts_def)
qed

lemma checkBeforeReboot_as_loop:
  "checkBeforeReboot k t
   = update_all (checkReboot_mutate (beforeOpts k))
       (map Name (take (length t) (filter (readyToReboot k) t))) t"
proof -
  have "(\<lambda>n. Requirement_Matches beforeRebootReq (Labels n)
              \<and> hasAllAnnotations n (beforeRebootAnnotations k)) = readyToReboot k"
    by (simp add: fun_eq_iff readyToReboot_def)
  then show ?thesis
    by (simp add: checkBeforeReboot_def checkReboot_def checkReboot_loop_update_all
        FilterNodesByRequirement_def beforeOpts_def)
qed

lemma markAfterReboot_as_loop:
  "markAfterReboot k t
   = update_all (mark_mutate LabelAfterReboot (afterRebootAnnotations k))
       (map Name (take (length t) (filter justRebooted t))) t"
proof -
  have "(\<lambda>n. Requirement_Matches notAfterRebootSelector (Labels n)
              \<and> Selector_Matches justRebootedSelector (Annotations n)) = justRebooted"
    by (simp add: fun_eq_iff justRebooted_def)
  then show ?thesis
    by (simp add: markAfterReboot_def mark_loop_update_all FilterNodesByRequirement_def
        FilterNodesByAnnotation_def)
qed

lemma nodesRequiringReboot_filter: "nodesRequiringReboot t = filter rebootable t"
proof -
  have "(\<lambda>n. Selector_Matches rebootableSelector (Annotations n)
              \<and> Requirement_Matches notBeforeRebootReq (Labels n)) = rebootable"
    by (simp add: fun_eq_iff rebootable_def)
  then show ?thesis
    by (simp add: nodesRequiringReboot_def FilterNodesByRequirement_def FilterNodesByAnnotation_def)
qed

lemma markBeforeReboot_cases:
  "markBeforeReboot k t1 t2 t
   = (if \<not> insideRebootWindow k t1 t2 then (None, t)
      else if remainingRebootingCapacity k t < 0
              \<or> maxAlloc < PtrSize * remainingRebootingCapacity k t
      then (Some MakesliceCapOutOfRange, t)
      else update_all (mark_mutate LabelBeforeReboot (beforeRebootAnnotations k))
             (map Name (take (nat (remainingRebootingCapacity k t)) (filter rebootable t))) t)"
  by (simp add: markBeforeReboot_def markBeforeReboot_admit_def rebootableNodes_def Let_def
      mark_loop_update_all nodesRequiringReboot_filter)

subsection \<open>Names\<close>

lemma cleanupState_names: "map Name (snd (cleanupState k t)) = map Name t"
  unfolding cleanupState_as_loop by (rule update_all_names) (rule cleanupState_mutate_Name)

lemma checkAfterReboot_names: "map Name (snd (checkAfterReboot k t)) = map Name t"
  unfolding checkAfterReboot_as_loop by (rule update_all_names) (rule checkReboot_mutate_Name)

lemma checkBeforeReboot_names: "map Name (snd (checkBeforeReboot k t)) = map Name t"
  unfolding checkBeforeReboot_as_loop by (rule update_all_names) (rule checkReboot_mutate_Name)

lemma markAfterReboot_names: "map Name (snd (markAfterReboot k t)) = map Name t"
  unfolding markAfterReboot_as_loop by (rule update_all_names) (rule mark_mutate_Name)

lemma markBeforeReboot_names: "map Name (snd (markBeforeReboot k t1 t2 t)) = map Name t"
  unfolding markBeforeReboot_cases
  by (simp add: update_all_names[OF mark_mutate_Name])

subsection \<open>Phase A\<close>

lemma cleanupState_establishes:
  assumes "distinct (map Name t)"
  shows "fst (cleanupState k t) = None"
    and "\<forall>n \<in> set (snd (cleanupState k t)). scheduledWantsReboot n"
proof -
  have "scheduledWantsReboot (applied (cleanupState_mutate k) n)" for n
    by (simp add: applied_cleanupState_mutate scheduledWantsReboot_def map_index_map_delete)
  then show "\<forall>n \<in> set (snd (cleanupState k t)). scheduledWantsReboot n"
    unfolding cleanupState_eq[OF assms] by simp
  show "fst (cleanupState k t) = None"
    unfolding cleanupState_eq[OF assms] by simp
qed

lemma cleanupState_noop:
  assumes "distinct (map Name t)" "\<forall>n \<in> set t. scheduledWantsReboot n"
  shows "cleanupState k t = (None, t)"
proof -
  have "map (applied (cleanupState_mutate k)) t = t"
    using assms(2)
    by (intro map_idI) (auto simp: applied_cleanupState_mutate scheduledWantsReboot_def)
  then show ?thesis unfolding cleanupState_eq[OF assms(1)] by simp
qed

subsection \<open>Phases B and D\<close>

lemma hasAllAnnotations_nonnil:
  assumes "hasAllAnnotations n as" "as \<noteq> []"
  shows "Annotations n \<noteq> None"
proof -
  from assms(2) obtain a where "a \<in> set as" by (cases as) auto
  then have "map_index (Annotations n) a = Some True_str"
    using assms(1) by (simp add: hasAllAnnotations_iff)
  then show ?thesis by (cases "Annotations n") (simp_all add: map_index_def)
qed

lemma checkAfterReboot_establishes:
  assumes d: "distinct (map Name t)" and ne: "afterRebootAnnotations k \<noteq> []"
  shows "fst (checkAfterReboot k t) = None"
    and "\<forall>n \<in> set (snd (checkAfterReboot k t)). \<not> finishedRebooting k n"
proof -
  let ?opt = "\<lparr>req = afterRebootReq, annotations = afterRebootAnnotations k,
                  label = LabelAfterReboot, okToReboot = False_str\<rparr>"
  have nonnil: "Annotations n \<noteq> None"
    if "hasAllAnnotations n (annotations ?opt)" for n
    using that ne hasAllAnnotations_nonnil by simp
  have eq: "checkAfterReboot k t
         = (None, map (\<lambda>n. if finishedRebooting k n then applied (checkReboot_mutate ?opt) n else n) t)"
    unfolding checkAfterReboot_def
    using checkReboot_eq[OF d, of ?opt] nonnil by (simp add: finishedRebooting_def)
  show "fst (checkAfterReboot k t) = None" unfolding eq by simp
  have "\<not> finishedRebooting k (applied (checkReboot_mutate ?opt) n)"
    if "finishedRebooting k n" for n
  proof -
    have "Annotations n \<noteq> None" using that nonnil by (simp add: finishedRebooting_def)
    then obtain n' where n': "checkReboot_mutate ?opt n = Inr n'"
      by (auto simp: checkReboot_mutate_def map_assign_def deleteAll_Some)
    then show ?thesis using checkAfter_unfinishes[OF n'] by (simp add: applied_def)
  qed
  then show "\<forall>n \<in> set (snd (checkAfterReboot k t)). \<not> finishedRebooting k n"
    unfolding eq by auto
qed

lemma checkBeforeReboot_establishes:
  assumes d: "distinct (map Name t)" and ne: "beforeRebootAnnotations k \<noteq> []"
  shows "fst (checkBeforeReboot k t) = None"
    and "\<forall>n \<in> set (snd (checkBeforeReboot k t)). \<not> readyToReboot k n"
proof -
  let ?opt = "\<lparr>req = beforeRebootReq, annotations = beforeRebootAnnotations k,
                  label = LabelBeforeReboot, okToReboot = True_str\<rparr>"
  have nonnil: "Annotations n \<noteq> None"
    if "hasAllAnnotations n (annotations ?opt)" for n
    using that ne hasAllAnnotations_nonnil by simp
  have eq: "checkBeforeReboot k t
         = (None, map (\<lambda>n. if readyToReboot k n then applied (checkReboot_mutate ?opt) n else n) t)"
    unfolding checkBeforeReboot_def
    using checkReboot_eq[OF d, of ?opt] nonnil by (simp add: readyToReboot_def)
  show "fst (checkBeforeReboot k t) = None" unfolding eq by simp
  have "\<not> readyToReboot k (applied (checkReboot_mutate ?opt) n)"
    if "readyToReboot k n" for n
  proof -
    have "Annotations n \<noteq> None" using that nonnil by (simp add: readyToReboot_def)
    then obtain n' where n': "checkReboot_mutate ?opt n = Inr n'"
      by (auto simp: checkReboot_mutate_def map_assign_def deleteAll_Some)
    then show ?thesis using checkBefore_unreadies[OF n'] by (simp add: applied_def)
  qed
  then show "\<forall>n \<in> set (snd (checkBeforeReboot k t)). \<not> readyToReboot k n"
    unfolding eq by auto
qed

lemma checkAfterReboot_noop:
  assumes "\<forall>n \<in> set t. \<not> finishedRebooting k n"
  shows "checkAfterReboot k t = (None, t)"
proof -
  have "filter (finishedRebooting k) t = []" using assms by (simp add: filter_empty_conv)
  then show ?thesis unfolding checkAfterReboot_as_loop by simp
qed

lemma checkBeforeReboot_noop:
  assumes "\<forall>n \<in> set t. \<not> readyToReboot k n"
  shows "checkBeforeReboot k t = (None, t)"
proof -
  have "filter (readyToReboot k) t = []" using assms by (simp add: filter_empty_conv)
  then show ?thesis unfolding checkBeforeReboot_as_loop by simp
qed

lemma markAfterReboot_noop:
  assumes "\<forall>n \<in> set t. \<not> justRebooted n"
  shows "markAfterReboot k t = (None, t)"
proof -
  have "filter justRebooted t = []" using assms by (simp add: filter_empty_conv)
  then show ?thesis unfolding markAfterReboot_as_loop by simp
qed

subsection \<open>What the later phases keep\<close>

lemma checkAfterReboot_keeps_scheduled:
  assumes d: "distinct (map Name t)"
    and cfg: "AnnotationRebootNeeded \<notin> set (afterRebootAnnotations k)"
    and inv: "\<forall>n \<in> set t. scheduledWantsReboot n"
  shows "\<forall>n \<in> set (snd (checkAfterReboot k t)). scheduledWantsReboot n"
  unfolding checkAfterReboot_as_loop
proof (rule update_all_invariant[OF d checkReboot_mutate_Name])
  fix n assume "n \<in> set t" then show "scheduledWantsReboot n" using inv by simp
next
  fix n n' assume "scheduledWantsReboot n" "checkReboot_mutate (afterOpts k) n = Inr n'"
  then show "scheduledWantsReboot n'"
    using checkAfter_keeps_scheduledWantsReboot[OF _ cfg] by (simp add: afterOpts_def)
qed

lemma markAfterReboot_keeps:
  assumes d: "distinct (map Name t)"
    and cfg: "AnnotationRebootNeeded \<notin> set (afterRebootAnnotations k)"
    and ne: "afterRebootAnnotations k \<noteq> []"
    and inv: "\<forall>n \<in> set t. scheduledWantsReboot n \<and> \<not> finishedRebooting k n"
  shows "\<forall>n \<in> set (snd (markAfterReboot k t)). scheduledWantsReboot n \<and> \<not> finishedRebooting k n"
  unfolding markAfterReboot_as_loop
proof (rule update_all_invariant[OF d mark_mutate_Name])
  fix n assume "n \<in> set t"
  then show "scheduledWantsReboot n \<and> \<not> finishedRebooting k n" using inv by simp
next
  fix n n'
  assume "scheduledWantsReboot n \<and> \<not> finishedRebooting k n"
    and m: "mark_mutate LabelAfterReboot (afterRebootAnnotations k) n = Inr n'"
  then show "scheduledWantsReboot n' \<and> \<not> finishedRebooting k n'"
    using markAfter_keeps_scheduledWantsReboot[OF m cfg] markAfter_not_finished[OF m ne] by simp
qed

lemma checkBeforeReboot_keeps:
  assumes d: "distinct (map Name t)"
    and cfg: "AnnotationOkToReboot \<notin> set (afterRebootAnnotations k)"
    and inv: "\<forall>n \<in> set t. scheduledWantsReboot n \<and> \<not> finishedRebooting k n \<and> \<not> justRebooted n"
  shows "\<forall>n \<in> set (snd (checkBeforeReboot k t)).
           scheduledWantsReboot n \<and> \<not> finishedRebooting k n \<and> \<not> justRebooted n"
  unfolding checkBeforeReboot_as_loop
proof (rule update_all_invariant[OF d checkReboot_mutate_Name])
  fix n assume "n \<in> set t"
  then show "scheduledWantsReboot n \<and> \<not> finishedRebooting k n \<and> \<not> justRebooted n"
    using inv by simp
next
  fix n n'
  assume i: "scheduledWantsReboot n \<and> \<not> finishedRebooting k n \<and> \<not> justRebooted n"
    and r: "readyToReboot k n"
    and "checkReboot_mutate (beforeOpts k) n = Inr n'"
  then have m: "checkReboot_mutate \<lparr>req = beforeRebootReq, annotations = beforeRebootAnnotations k,
                  label = LabelBeforeReboot, okToReboot = True_str\<rparr> n = Inr n'"
    by (simp add: beforeOpts_def)
  show "scheduledWantsReboot n' \<and> \<not> finishedRebooting k n' \<and> \<not> justRebooted n'"
    using checkBefore_gives_scheduledWantsReboot[OF m] checkBefore_keeps_unfinished[OF m cfg]
      checkBefore_not_justRebooted[OF m _ r] i by simp
qed

lemma markBeforeReboot_keeps:
  assumes d: "distinct (map Name t)"
    and cfg: "AnnotationRebootNeeded \<notin> set (beforeRebootAnnotations k)"
    and ne: "beforeRebootAnnotations k \<noteq> []"
    and inv: "\<forall>n \<in> set t. scheduledWantsReboot n \<and> \<not> finishedRebooting k n
                \<and> \<not> justRebooted n \<and> \<not> readyToReboot k n"
  shows "\<forall>n \<in> set (snd (markBeforeReboot k t1 t2 t)).
           scheduledWantsReboot n \<and> \<not> finishedRebooting k n
           \<and> \<not> justRebooted n \<and> \<not> readyToReboot k n"
proof -
  have "\<forall>n \<in> set (snd (update_all (mark_mutate LabelBeforeReboot (beforeRebootAnnotations k))
             (map Name (take r (filter rebootable t))) t)).
           scheduledWantsReboot n \<and> \<not> finishedRebooting k n
           \<and> \<not> justRebooted n \<and> \<not> readyToReboot k n" for r
  proof (rule update_all_invariant[OF d mark_mutate_Name])
    fix n assume "n \<in> set t"
    then show "scheduledWantsReboot n \<and> \<not> finishedRebooting k n
           \<and> \<not> justRebooted n \<and> \<not> readyToReboot k n" using inv by simp
  next
    fix n n'
    assume i: "scheduledWantsReboot n \<and> \<not> finishedRebooting k n
           \<and> \<not> justRebooted n \<and> \<not> readyToReboot k n"
      and r: "rebootable n"
      and m: "mark_mutate LabelBeforeReboot (beforeRebootAnnotations k) n = Inr n'"
    show "scheduledWantsReboot n' \<and> \<not> finishedRebooting k n'
           \<and> \<not> justRebooted n' \<and> \<not> readyToReboot k n'"
      using markBefore_gives_scheduledWantsReboot[OF m cfg r] markBefore_keeps_unfinished[OF m]
        markBefore_not_justRebooted[OF m r] markBefore_not_ready[OF m ne] i by simp
  qed
  then show ?thesis
    unfolding markBeforeReboot_cases using inv by simp
qed

subsection \<open>Phases C and E, run again\<close>

lemma markAfterReboot_establishes:
  assumes d: "distinct (map Name t)" and ok: "fst (markAfterReboot k t) = None"
  shows "\<forall>n \<in> set (snd (markAfterReboot k t)). \<not> justRebooted n"
proof -
  let ?f = "mark_mutate LabelAfterReboot (afterRebootAnnotations k)"
  have nm: "\<And>n n'. ?f n = Inr n' \<Longrightarrow> Name n' = Name n" by (rule mark_mutate_Name)
  obtain j where pc: "prefix_char ?f (length t) justRebooted t j"
    using update_all_prefix[where f = ?f, OF d nm] by blast
  then have "j = length (take (length t) (filter justRebooted t))"
    using ok unfolding prefix_char_def markAfterReboot_as_loop by blast
  then have j: "j = length (filter justRebooted t)" by simp
  have rem: "\<And>n n'. justRebooted n \<Longrightarrow> ?f n = Inr n' \<Longrightarrow> \<not> justRebooted n'"
    by (rule markAfter_not_justRebooted)
  have "filter justRebooted (snd (markAfterReboot k t)) = drop j (filter justRebooted t)"
    unfolding markAfterReboot_as_loop
    by (rule update_all_again(1)[where f = ?f, OF d nm rem pc])
  then have "filter justRebooted (snd (markAfterReboot k t)) = []" using j by simp
  then show ?thesis by (simp add: filter_empty_conv)
qed

lemma markAfterReboot_again:
  assumes d: "distinct (map Name t)"
  shows "markAfterReboot k (snd (markAfterReboot k t)) = markAfterReboot k t"
proof -
  let ?f = "mark_mutate LabelAfterReboot (afterRebootAnnotations k)"
  have nm: "\<And>n n'. ?f n = Inr n' \<Longrightarrow> Name n' = Name n" by (rule mark_mutate_Name)
  let ?t' = "snd (markAfterReboot k t)"
  obtain j where pc: "prefix_char ?f (length t) justRebooted t j"
    using update_all_prefix[where f = ?f, OF d nm] by blast
  have rem: "\<And>n n'. justRebooted n \<Longrightarrow> ?f n = Inr n' \<Longrightarrow> \<not> justRebooted n'"
    by (rule markAfter_not_justRebooted)
  have f': "filter justRebooted ?t' = drop j (filter justRebooted t)"
    unfolding markAfterReboot_as_loop
    by (rule update_all_again(1)[where f = ?f, OF d nm rem pc])
  have "markAfterReboot k ?t' = update_all ?f (map Name (filter justRebooted ?t')) ?t'"
    unfolding markAfterReboot_as_loop[of k ?t'] by simp
  also have "\<dots> = update_all ?f (map Name (drop j (take (length t) (filter justRebooted t)))) ?t'"
    unfolding f' by simp
  also have "\<dots> = update_all ?f (map Name (take (length t) (filter justRebooted t))) t"
    unfolding markAfterReboot_as_loop[of k t]
    by (rule update_all_again(2)[where f = ?f, OF d nm rem pc])
  finally show ?thesis unfolding markAfterReboot_as_loop[of k t] .
qed

lemma length_filter_disj:
  assumes "\<And>x. x \<in> set xs \<Longrightarrow> \<not> (P x \<and> Q x)"
  shows "length (filter (\<lambda>x. P x \<or> Q x) xs) = length (filter P xs) + length (filter Q xs)"
  using assms by (induction xs) auto

lemma length_filter_map: "length (filter Q (map g xs)) = length (filter (Q \<circ> g) xs)"
  by (simp add: filter_map)

lemma rebootingNodes_after_marking:
  assumes d: "distinct (map Name t)"
    and pc: "prefix_char (mark_mutate LabelBeforeReboot as) r rebootable t j"
  shows "length (rebootingNodes
            (snd (update_all (mark_mutate LabelBeforeReboot as)
                    (map Name (take r (filter rebootable t))) t)))
         = length (rebootingNodes t) + j"
proof -
  let ?f = "mark_mutate LabelBeforeReboot as"
  let ?cands = "filter rebootable t"
  let ?J = "Name ` set (take j ?cands)"
  let ?g = "\<lambda>n. if Name n \<in> ?J then applied ?f n else n"
  let ?t' = "snd (update_all ?f (map Name (take r ?cands)) t)"
  let ?S = "\<lambda>n. Selector_Matches stillRebootingSelector (Annotations n)"
  let ?B = "\<lambda>n. Requirement_Matches beforeRebootReq (Labels n)"
  let ?A = "\<lambda>n. Requirement_Matches afterRebootReq (Labels n)"
  from pc have jl: "j \<le> length (take r ?cands)"
    and t': "?t' = map ?g t"
    and sel: "\<And>n. n \<in> set t \<Longrightarrow> Name n \<in> ?J \<Longrightarrow> rebootable n \<and> ?f n = Inr (applied ?f n)"
    unfolding prefix_char_def by blast+
  have marked: "\<not> ?S n \<and> \<not> ?S (?g n) \<and> \<not> ?B n \<and> ?B (?g n) \<and> (?A (?g n) \<longleftrightarrow> ?A n)"
    if "n \<in> set t" "Name n \<in> ?J" for n
  proof -
    from sel[OF that] have r: "rebootable n" and m: "?f n = Inr (applied ?f n)" by simp_all
    note e = mark_mutate_Inr(2,3)[OF m]
    have "fields_Get (Annotations n) AnnotationOkToReboot \<noteq> True_str"
      using r by (simp add: rebootable_def rebootableSelector_iff)
    then have "fields_Get (Annotations (applied ?f n)) AnnotationOkToReboot \<noteq> True_str"
      using e(2)[of AnnotationOkToReboot] by (auto simp: fields_Get_def split: if_splits)
    then show ?thesis
      using r that(2) e(1)[of LabelBeforeReboot] e(1)[of LabelAfterReboot]
      by (simp add: rebootable_def req_iffs)
  qed
  have S: "length (filter ?S ?t') = length (filter ?S t)"
    unfolding t' length_filter_map
    by (rule arg_cong[where f = length], rule filter_cong[OF refl]) (use marked in auto)
  have A: "length (filter ?A ?t') = length (filter ?A t)"
    unfolding t' length_filter_map
    by (rule arg_cong[where f = length], rule filter_cong[OF refl]) (use marked in auto)
  have "filter (?B \<circ> ?g) t = filter (\<lambda>n. ?B n \<or> Name n \<in> ?J) t"
    by (rule filter_cong[OF refl]) (use marked in auto)
  then have "length (filter ?B ?t') = length (filter (\<lambda>n. ?B n \<or> Name n \<in> ?J) t)"
    unfolding t' length_filter_map by simp
  also have "\<dots> = length (filter ?B t) + length (filter (\<lambda>n. Name n \<in> ?J) t)"
    by (rule length_filter_disj) (use marked in blast)
  also have "length (filter (\<lambda>n. Name n \<in> ?J) t) = length (take j ?cands)"
  proof (rule count_named[OF d])
    show "set (take j ?cands) \<subseteq> set t" by (auto dest: in_set_takeD)
    have "distinct t" using d by (simp add: distinct_map)
    then show "distinct (take j ?cands)" by simp
  qed
  also have "length (take j ?cands) = j" using jl by simp
  finally have B: "length (filter ?B ?t') = length (filter ?B t) + j" .
  show ?thesis
    using S A B
    by (simp add: rebootingNodes_def FilterNodesByAnnotation_def FilterNodesByRequirement_def)
qed

lemma markBeforeReboot_again:
  assumes d: "distinct (map Name t)"
  shows "markBeforeReboot k t1 t2 (snd (markBeforeReboot k t1 t2 t)) = markBeforeReboot k t1 t2 t"
proof (cases "insideRebootWindow k t1 t2
    \<and> \<not> (remainingRebootingCapacity k t < 0 \<or> maxAlloc < PtrSize * remainingRebootingCapacity k t)")
  case False
  then show ?thesis by (auto simp: markBeforeReboot_cases)
next
  case True
  let ?f = "mark_mutate LabelBeforeReboot (beforeRebootAnnotations k)"
  have nm: "\<And>n n'. ?f n = Inr n' \<Longrightarrow> Name n' = Name n" by (rule mark_mutate_Name)
  let ?rc = "remainingRebootingCapacity k t"
  let ?r = "nat ?rc"
  let ?cands = "filter rebootable t"
  have E: "markBeforeReboot k t1 t2 t = update_all ?f (map Name (take ?r ?cands)) t"
    using True by (simp add: markBeforeReboot_cases)
  let ?t' = "snd (update_all ?f (map Name (take ?r ?cands)) t)"
  obtain j where pc: "prefix_char ?f ?r rebootable t j"
    using update_all_prefix[where f = ?f, OF d nm] by blast
  then have jl: "j \<le> length (take ?r ?cands)" unfolding prefix_char_def by blast
  then have jr: "j \<le> ?r" by simp
  have rem: "\<And>n n'. rebootable n \<Longrightarrow> ?f n = Inr n' \<Longrightarrow> \<not> rebootable n'"
    by (rule markBefore_not_rebootable)
  have f': "filter rebootable ?t' = drop j ?cands"
    by (rule update_all_again(1)[where f = ?f, OF d nm rem pc])
  have "length (rebootingNodes ?t') = length (rebootingNodes t) + j"
    by (rule rebootingNodes_after_marking[OF d pc])
  then have "remainingRebootingCapacity k ?t'
      = sint (maxRebootingNodes k - word_of_nat (length (rebootingNodes t)) - word_of_nat j)"
    by (simp add: remainingRebootingCapacity_def diff_diff_eq)
  also have "\<dots> = ?rc - int j"
  proof -
    have "int j \<le> ?rc" using jr True by linarith
    then have "int j \<le> ?rc + 2 ^ 63" by simp
    then show ?thesis
      unfolding remainingRebootingCapacity_def by (rule sint_sub_of_nat)
  qed
  finally have rc': "remainingRebootingCapacity k ?t' = ?rc - int j" .
  have "0 < PtrSize" by (simp add: PtrSize_def)
  then have "PtrSize * (?rc - int j) \<le> PtrSize * ?rc" by simp
  then have allocated: "\<not> (remainingRebootingCapacity k ?t' < 0
      \<or> maxAlloc < PtrSize * remainingRebootingCapacity k ?t')"
    using jr True rc' by auto
  have r': "nat (remainingRebootingCapacity k ?t') = ?r - j" using rc' by simp
  have "markBeforeReboot k t1 t2 ?t'
        = update_all ?f (map Name (take (?r - j) (drop j ?cands))) ?t'"
    using True allocated r' f' by (simp add: markBeforeReboot_cases)
  also have "take (?r - j) (drop j ?cands) = drop j (take ?r ?cands)"
    by (simp add: drop_take)
  also have "update_all ?f (map Name (drop j (take ?r ?cands))) ?t'
             = update_all ?f (map Name (take ?r ?cands)) t"
    by (rule update_all_again(2)[where f = ?f, OF d nm rem pc])
  finally show ?thesis using True by (simp add: E)
qed

subsection \<open>The tick\<close>

text \<open>
  Claim C8, as stated, fails: with no before-reboot annotation configured nothing gates
  phase D. The first tick labels the rebootable node of the test file in phase E; the
  second tick finds the label, approves the reboot in phase D and removes the label
  again.
\<close>

theorem process_twice_differs:
  "map_index (Labels (hd (snd (process testKontroller 0 0 [rebootableNode])))) LabelBeforeReboot
     = Some True_str
   \<and> map_index (Annotations (hd (snd (process testKontroller 0 0 [rebootableNode]))))
       AnnotationOkToReboot = Some False_str
   \<and> map_index (Labels (hd (snd (process testKontroller 0 0
         (snd (process testKontroller 0 0 [rebootableNode])))))) LabelBeforeReboot = None
   \<and> map_index (Annotations (hd (snd (process testKontroller 0 0
         (snd (process testKontroller 0 0 [rebootableNode])))))) AnnotationOkToReboot
       = Some True_str"
proof -
  have one: "snd (process testKontroller 0 0 [rebootableNode])
      = [rebootableNode\<lparr>Labels := Some [''reboot-needed'' \<mapsto> True_str, LabelBeforeReboot \<mapsto> True_str]\<rparr>]"
    by (simp add: phase_defs node_defs sel_defs)
  show ?thesis
    unfolding one by (simp add: phase_defs node_defs sel_defs)
qed

lemma process_window_only:
  assumes "insideRebootWindow k t1' t2' = insideRebootWindow k t1 t2"
  shows "process k t1' t2' s = process k t1 t2 s"
proof -
  have "markBeforeReboot k t1' t2' t = markBeforeReboot k t1 t2 t" for t
    using assms by (simp add: markBeforeReboot_def)
  then show ?thesis by (simp add: process_def split: prod.splits option.splits)
qed

text \<open>The tick run again at the same clock readings.\<close>

lemma process_again:
  assumes d: "distinct (map Name s)"
    and neB: "beforeRebootAnnotations k \<noteq> []"
    and neA: "afterRebootAnnotations k \<noteq> []"
    and nB: "AnnotationRebootNeeded \<notin> set (beforeRebootAnnotations k)"
    and nA: "AnnotationRebootNeeded \<notin> set (afterRebootAnnotations k)"
    and oA: "AnnotationOkToReboot \<notin> set (afterRebootAnnotations k)"
  shows "process k t1 t2 (snd (process k t1 t2 s)) = process k t1 t2 s"
proof -
  obtain s1 where p1: "cleanupState k s = (None, s1)"
    using cleanupState_establishes(1)[OF d, of k] by (cases "cleanupState k s") simp
  have d1: "distinct (map Name s1)"
    using cleanupState_names[of k s] d p1 by simp
  have A1: "\<forall>n \<in> set s1. scheduledWantsReboot n"
    using cleanupState_establishes(2)[OF d, of k] p1 by simp
  obtain s2 where p2: "checkAfterReboot k s1 = (None, s2)"
    using checkAfterReboot_establishes(1)[OF d1 neA] by (cases "checkAfterReboot k s1") simp
  have d2: "distinct (map Name s2)"
    using checkAfterReboot_names[of k s1] d1 p2 by simp
  have A2: "\<forall>n \<in> set s2. scheduledWantsReboot n"
    using checkAfterReboot_keeps_scheduled[OF d1 nA A1] p2 by simp
  have B2: "\<forall>n \<in> set s2. \<not> finishedRebooting k n"
    using checkAfterReboot_establishes(2)[OF d1 neA] p2 by simp
  obtain e3 s3 where p3: "markAfterReboot k s2 = (e3, s3)"
    by (cases "markAfterReboot k s2")
  have d3: "distinct (map Name s3)"
    using markAfterReboot_names[of k s2] d2 p3 by simp
  have AB3: "\<forall>n \<in> set s3. scheduledWantsReboot n \<and> \<not> finishedRebooting k n"
    using markAfterReboot_keeps[OF d2 nA neA] A2 B2 p3 by simp
  have a3: "cleanupState k s3 = (None, s3)"
    using AB3 by (intro cleanupState_noop[OF d3]) simp
  have b3: "checkAfterReboot k s3 = (None, s3)"
    using AB3 by (intro checkAfterReboot_noop) simp
  have c3: "markAfterReboot k s3 = (e3, s3)"
    using markAfterReboot_again[OF d2, of k] p3 by simp
  show ?thesis
  proof (cases e3)
    case (Some e)
    have "process k t1 t2 s = (Some e, s3)"
      using p1 p2 p3 Some by (simp add: process_def)
    moreover have "process k t1 t2 s3 = (Some e, s3)"
      using a3 b3 c3 Some by (simp add: process_def)
    ultimately show ?thesis by simp
  next
    case None
    have C3: "\<forall>n \<in> set s3. \<not> justRebooted n"
      using markAfterReboot_establishes[OF d2, of k] p3 None by simp
    obtain s4 where p4: "checkBeforeReboot k s3 = (None, s4)"
      using checkBeforeReboot_establishes(1)[OF d3 neB] by (cases "checkBeforeReboot k s3") simp
    have d4: "distinct (map Name s4)"
      using checkBeforeReboot_names[of k s3] d3 p4 by simp
    have ABC4: "\<forall>n \<in> set s4. scheduledWantsReboot n \<and> \<not> finishedRebooting k n \<and> \<not> justRebooted n"
      using checkBeforeReboot_keeps[OF d3 oA, of ] AB3 C3 p4 by simp
    have D4: "\<forall>n \<in> set s4. \<not> readyToReboot k n"
      using checkBeforeReboot_establishes(2)[OF d3 neB] p4 by simp
    obtain e5 s5 where p5: "markBeforeReboot k t1 t2 s4 = (e5, s5)"
      by (cases "markBeforeReboot k t1 t2 s4")
    have d5: "distinct (map Name s5)"
      using markBeforeReboot_names[of k t1 t2 s4] d4 p5 by simp
    have I5: "\<forall>n \<in> set s5. scheduledWantsReboot n \<and> \<not> finishedRebooting k n
                \<and> \<not> justRebooted n \<and> \<not> readyToReboot k n"
      using markBeforeReboot_keeps[OF d4 nB neB, of t1 t2] ABC4 D4 p5 by simp
    have a5: "cleanupState k s5 = (None, s5)"
      using I5 by (intro cleanupState_noop[OF d5]) simp
    have b5: "checkAfterReboot k s5 = (None, s5)"
      using I5 by (intro checkAfterReboot_noop) simp
    have c5: "markAfterReboot k s5 = (None, s5)"
      using I5 by (intro markAfterReboot_noop) simp
    have d5': "checkBeforeReboot k s5 = (None, s5)"
      using I5 by (intro checkBeforeReboot_noop) simp
    have e5': "markBeforeReboot k t1 t2 s5 = (e5, s5)"
      using markBeforeReboot_again[OF d4, of k t1 t2] p5 by simp
    have "process k t1 t2 s = (e5, s5)"
      using p1 p2 p3 p4 p5 None by (simp add: process_def)
    moreover have "process k t1 t2 s5 = (e5, s5)"
      using a5 b5 c5 d5' e5' by (simp add: process_def)
    ultimately show ?thesis by simp
  qed
qed

text \<open>
  Claim C8, amended. Let both configured annotation lists be non-empty, let neither
  contain \<open>reboot-needed\<close> and the after-reboot list not contain \<open>ok-to-reboot\<close>, and let
  the node names be distinct. Then a second tick for which the reboot window decides
  as it did for the first, run on the store the first tick left, leaves that store as
  it is and ends as the first tick ended, also when the first tick failed.
\<close>

theorem process_idempotent:
  assumes "distinct (map Name s)"
    and "beforeRebootAnnotations k \<noteq> []"
    and "afterRebootAnnotations k \<noteq> []"
    and "AnnotationRebootNeeded \<notin> set (beforeRebootAnnotations k)"
    and "AnnotationRebootNeeded \<notin> set (afterRebootAnnotations k)"
    and "AnnotationOkToReboot \<notin> set (afterRebootAnnotations k)"
    and w: "insideRebootWindow k t1' t2' = insideRebootWindow k t1 t2"
  shows "snd (process k t1' t2' (snd (process k t1 t2 s))) = snd (process k t1 t2 s)
       \<and> fst (process k t1' t2' (snd (process k t1 t2 s))) = fst (process k t1 t2 s)"
proof -
  have "process k t1' t2' (snd (process k t1 t2 s)) = process k t1 t2 (snd (process k t1 t2 s))"
    using w by (rule process_window_only)
  also have "\<dots> = process k t1 t2 s"
    using assms(1-6) by (rule process_again)
  finally show ?thesis by simp
qed

theorem process_idempotent_witness:
  "distinct (map Name [rebootableNode, toBeRebootedNode, justRebootedNode, finishedRebootingNode])
   \<and> snd (process hookedKontroller 30 30
        (snd (process hookedKontroller 0 0
           [rebootableNode, toBeRebootedNode, justRebootedNode, finishedRebootingNode])))
     = snd (process hookedKontroller 0 0
           [rebootableNode, toBeRebootedNode, justRebootedNode, finishedRebootingNode])
   \<and> map_index (Labels (snd (process hookedKontroller 0 0
           [rebootableNode, toBeRebootedNode, justRebootedNode, finishedRebootingNode]) ! 2))
        LabelAfterReboot = Some True_str
   \<and> map_index (Labels (snd (process hookedKontroller 0 0
           [rebootableNode, toBeRebootedNode, justRebootedNode, finishedRebootingNode]) ! 3))
        LabelAfterReboot = None"
proof -
  let ?s = "[rebootableNode, toBeRebootedNode, justRebootedNode, finishedRebootingNode]"
  have d: "distinct (map Name ?s)" by (simp add: node_defs)
  have c: "beforeRebootAnnotations hookedKontroller \<noteq> []"
    "afterRebootAnnotations hookedKontroller \<noteq> []"
    "AnnotationRebootNeeded \<notin> set (beforeRebootAnnotations hookedKontroller)"
    "AnnotationRebootNeeded \<notin> set (afterRebootAnnotations hookedKontroller)"
    "AnnotationOkToReboot \<notin> set (afterRebootAnnotations hookedKontroller)"
    by (simp_all add: hookedKontroller_def node_defs)
  have l: "map_index (Labels (snd (process hookedKontroller 0 0 ?s) ! 2)) LabelAfterReboot
      = Some True_str"
    "map_index (Labels (snd (process hookedKontroller 0 0 ?s) ! 3)) LabelAfterReboot = None"
    by (simp_all add: hookedKontroller_def phase_defs node_defs sel_defs)
  have w: "insideRebootWindow hookedKontroller 30 30 = insideRebootWindow hookedKontroller 0 0"
    by (simp add: insideRebootWindow_def hookedKontroller_def)
  show ?thesis
    using d l process_idempotent[OF d c w] by simp
qed

end
